theory Spec2Isabelle
  imports Main
begin

section \<open>Strings\<close>

text \<open>
  A JavaScript string is a sequence of UTF-16 code units, each a number from 0 to 65535. The
  model takes a code unit as a natural number and a string as the list of its code units;
  the regular expressions of the code have no \<^verbatim>\<open>u\<close> flag and work on code units as well.
  What holds of every list of numbers holds of every string. \<open>js\<close> gives the code units
  of a text written in ASCII.
\<close>

type_synonym code_unit = nat

type_synonym jsstring = "code_unit list"

definition js :: "string \<Rightarrow> jsstring" where
  "js s = map of_char s"

definition LF :: code_unit where
  "LF = 0x0A"

definition hyphen :: code_unit where
  "hyphen = 0x2D"

text \<open>The character class \<^verbatim>\<open>[a-z0-9]\<close>.\<close>

definition is_alnum :: "code_unit \<Rightarrow> bool" where
  "is_alnum n = ((97 \<le> n \<and> n \<le> 122) \<or> (48 \<le> n \<and> n \<le> 57))"

text \<open>The letters and digits of ASCII in either case, \<^verbatim>\<open>[A-Za-z0-9]\<close>.\<close>

definition ascii_alphanumeric :: "code_unit \<Rightarrow> bool" where
  "ascii_alphanumeric n =
     ((65 \<le> n \<and> n \<le> 90) \<or> (97 \<le> n \<and> n \<le> 122) \<or> (48 \<le> n \<and> n \<le> 57))"

text \<open>
  The class \<^verbatim>\<open>\s\<close> of a regular expression, which is also what \<^verbatim>\<open>trim\<close> removes: the
  white space and the line terminators of the language. These are tab, line feed, vertical
  tab, form feed, carriage return, space, the no-break space, U+1680, U+2000 to U+200A,
  the line and the paragraph separator, U+202F, U+205F, U+3000 and the byte order mark.
\<close>

definition is_space :: "code_unit \<Rightarrow> bool" where
  "is_space n =
     ((9 \<le> n \<and> n \<le> 13) \<or> n = 0x20 \<or> n = 0xA0 \<or> n = 0x1680 \<or> (0x2000 \<le> n \<and> n \<le> 0x200A)
      \<or> n = 0x2028 \<or> n = 0x2029 \<or> n = 0x202F \<or> n = 0x205F \<or> n = 0x3000 \<or> n = 0xFEFF)"

definition trim :: "jsstring \<Rightarrow> jsstring" where
  "trim s = rev (dropWhile is_space (rev (dropWhile is_space s)))"

definition endsWith :: "jsstring \<Rightarrow> jsstring \<Rightarrow> bool" where
  "endsWith s suffix = (length suffix \<le> length s \<and> drop (length s - length suffix) s = suffix)"

definition startsWith :: "jsstring \<Rightarrow> jsstring \<Rightarrow> bool" where
  "startsWith s p = (take (length p) s = p)"

text \<open>The decimal text of a number, as a template literal renders an integer.\<close>

function digits :: "nat \<Rightarrow> jsstring" where
  "digits n = (if n < 10 then [48 + n]
               else digits (n div 10) @ [48 + n mod 10])"
  by pat_completeness auto
termination
  by (relation "measure (\<lambda>n. n)") auto

declare digits.simps [simp del]

definition Number_toString :: "int \<Rightarrow> jsstring" where
  "Number_toString i = (if i < 0 then hyphen # digits (nat (- i)) else digits (nat i))"

section \<open>The platform\<close>

text \<open>
  The functions that the code takes from the language and from libraries outside the
  repository are parameters: \<^verbatim>\<open>String.prototype.toLowerCase\<close>, whose result depends on the
  case mappings of Unicode, some of them on the neighbours of a character; the glob matcher
  (minimatch); the date parser, with \<open>Date_getTime s\<close> for \<^verbatim>\<open>new Date(s).getTime()\<close> and
  \<open>None\<close> for \<^verbatim>\<open>NaN\<close>; the path functions; and the place at which \<^verbatim>\<open>readdir\<close> lists a
  name that is new to a directory, as an index into the names that are there.
\<close>

record platform =
  String_toLowerCase :: "jsstring \<Rightarrow> jsstring"
  minimatch :: "jsstring \<Rightarrow> jsstring \<Rightarrow> bool"
  Date_getTime :: "jsstring \<Rightarrow> int option"
  path_isAbsolute :: "jsstring \<Rightarrow> bool"
  path_relative :: "jsstring \<Rightarrow> jsstring \<Rightarrow> jsstring"
  readdir_place :: "jsstring list \<Rightarrow> jsstring \<Rightarrow> nat"

text \<open>
  What is known of \<^verbatim>\<open>toLowerCase\<close> and used below. On a text of ASCII it moves the
  letters A to Z up by 32 and leaves every other code unit. The only characters outside
  \<^verbatim>\<open>[A-Za-z0-9]\<close> whose lower case has a code unit in \<^verbatim>\<open>[a-z0-9]\<close> are the Kelvin sign
  U+212A, which becomes \<^verbatim>\<open>k\<close>, and the capital I with dot above U+0130, which becomes
  \<^verbatim>\<open>i\<close> and a combining dot.
\<close>

definition ascii_lower :: "code_unit \<Rightarrow> code_unit" where
  "ascii_lower n = (if 65 \<le> n \<and> n \<le> 90 then n + 32 else n)"

definition lowers_ascii :: "(jsstring \<Rightarrow> jsstring) \<Rightarrow> bool" where
  "lowers_ascii lower = (\<forall>s. list_all (\<lambda>n. n < 128) s \<longrightarrow> lower s = map ascii_lower s)"

definition letter_or_digit :: "code_unit \<Rightarrow> bool" where
  "letter_or_digit n = (ascii_alphanumeric n \<or> n = 0x212A \<or> n = 0x130)"

definition lowers_letters_only :: "(jsstring \<Rightarrow> jsstring) \<Rightarrow> bool" where
  "lowers_letters_only lower =
     (\<forall>s. list_all (\<lambda>n. \<not> letter_or_digit n) s \<longrightarrow> list_all (\<lambda>n. \<not> is_alnum n) (lower s))"

section \<open>The parser module: file names\<close>

text \<open>\<^verbatim>\<open>.replace(/[^a-z0-9]+/g, "-")\<close>: every maximal run of other code units becomes one hyphen.\<close>

function replace_runs :: "jsstring \<Rightarrow> jsstring" where
  "replace_runs [] = []"
| "replace_runs (c # cs) =
     (if is_alnum c then c # replace_runs cs
      else hyphen # replace_runs (dropWhile (\<lambda>x. \<not> is_alnum x) cs))"
  by pat_completeness auto
termination
  by (relation "measure length") (auto simp: length_dropWhile_le less_Suc_eq_le)

text \<open>\<^verbatim>\<open>.replace(/-$/g, "")\<close>: one hyphen at the end goes.\<close>

definition strip_trailing_hyphen :: "jsstring \<Rightarrow> jsstring" where
  "strip_trailing_hyphen s = (if s \<noteq> [] \<and> last s = hyphen then butlast s else s)"

text \<open>
  \<^verbatim>\<open>.replace(/^-|-$/g, "")\<close>: the scan removes a hyphen at index 0, goes on behind it and
  removes a hyphen that ends the string.
\<close>

definition strip_edge_hyphens :: "jsstring \<Rightarrow> jsstring" where
  "strip_edge_hyphens s =
     strip_trailing_hyphen (case s of [] \<Rightarrow> [] | c # cs \<Rightarrow> if c = hyphen then cs else c # cs)"

definition slugify :: "platform \<Rightarrow> jsstring \<Rightarrow> jsstring" where
  "slugify P summary =
     strip_trailing_hyphen
       (take 60 (strip_edge_hyphens (replace_runs (String_toLowerCase P summary))))"

section \<open>The server module: display helpers\<close>

definition slugifyForDisplay :: "platform \<Rightarrow> jsstring \<Rightarrow> jsstring" where
  "slugifyForDisplay P summary =
     take 60 (strip_edge_hyphens (replace_runs (String_toLowerCase P summary)))"

text \<open>
  \<^verbatim>\<open>getRelativeTime(iso)\<close> reads the clock and the timestamp; the model takes their
  difference \<open>diff = Date.now() - new Date(iso).getTime()\<close>, a whole number of milliseconds.
\<close>

definition getRelativeTime :: "int \<Rightarrow> jsstring" where
  "getRelativeTime diff =
     (let minutes = diff div 60000 in
      if minutes < 1 then js ''just now''
      else if minutes < 60 then Number_toString minutes @ js ''m ago''
      else let hours = minutes div 60 in
      if hours < 24 then Number_toString hours @ js ''h ago''
      else let days = hours div 24 in
      if days < 7 then Number_toString days @ js ''d ago''
      else let weeks = days div 7 in
      if weeks < 4 then Number_toString weeks @ js ''w ago''
      else let months = days div 30 in
      Number_toString months @ js ''mo ago'')"

text \<open>
  The relative age as the specification words it, by thresholds on the elapsed minutes.
\<close>

definition relative_age_spec :: "int \<Rightarrow> jsstring" where
  "relative_age_spec minutes =
     (if minutes < 1 then js ''just now''
      else if minutes < 60 then Number_toString minutes @ js ''m ago''
      else if minutes < 1440 then Number_toString (minutes div 60) @ js ''h ago''
      else if minutes < 10080 then Number_toString ((minutes div 60) div 24) @ js ''d ago''
      else if minutes < 40320 then Number_toString (((minutes div 60) div 24) div 7) @ js ''w ago''
      else Number_toString (((minutes div 60) div 24) div 30) @ js ''mo ago'')"

text \<open>The shape of a slug.\<close>

fun no_adjacent_hyphens :: "jsstring \<Rightarrow> bool" where
  "no_adjacent_hyphens [] = True"
| "no_adjacent_hyphens [c] = True"
| "no_adjacent_hyphens (a # b # cs) =
     (\<not> (a = hyphen \<and> b = hyphen) \<and> no_adjacent_hyphens (b # cs))"

section \<open>The data model\<close>

datatype DecisionStatus = active | superseded | archived

datatype DecisionConfidence = explicit | inferred | suggested

datatype DecisionSource = conversation | cli | hook | review

text \<open>
  The field \<^verbatim>\<open>id\<close> is written \<open>id'\<close> and \<^verbatim>\<open>context\<close> is written \<open>context'\<close> below:
  both plain names are taken in Isabelle. An optional field is an \<open>option\<close>.
\<close>

record DecisionFrontmatter =
  id' :: jsstring
  summary :: jsstring
  rationale :: jsstring
  scope :: "jsstring list"
  tags :: "jsstring list"
  author :: jsstring
  source :: DecisionSource
  confidence :: DecisionConfidence
  status :: DecisionStatus
  created :: jsstring
  updated :: "jsstring option"
  supersededBy :: "jsstring option"

record Decision = DecisionFrontmatter +
  context' :: "jsstring option"
  consequences :: "jsstring option"

record DecisionIndexEntry =
  entry_id :: jsstring
  entry_summary :: jsstring
  entry_scope :: "jsstring list"
  entry_tags :: "jsstring list"
  entry_status :: DecisionStatus
  entry_created :: jsstring
  entry_file :: jsstring

text \<open>
  \<^verbatim>\<open>parseDecision\<close> casts whatever front matter it finds to \<^verbatim>\<open>DecisionFrontmatter\<close>
  without looking at it. The model keeps two shapes of the object it returns: a decision
  with every front-matter field, and the object of a text with no front matter, which has
  the two body fields only. The index entry built from the latter has \<^verbatim>\<open>file\<close> only.
\<close>

datatype parsed = Full Decision | Fieldless "jsstring option" "jsstring option"

datatype index_entry = Entry DecisionIndexEntry | FileOnly jsstring

record DecisionIndex =
  version :: nat
  index_updated :: jsstring
  decisions :: "index_entry list"

record QueryOptions =
  status_option :: "DecisionStatus option"
  tags_option :: "jsstring list option"
  scope_option :: "jsstring option"

datatype error = YAMLException | TypeError

section \<open>Libraries at the boundary\<close>

text \<open>
  The front-matter library (gray-matter) is not part of the repository. A decision file's
  text is modelled by what the library reads in it: a front-matter block with the twelve
  fields and the content behind the closing delimiter; a text with no front-matter block,
  which the library returns whole as content with empty data; or a text with a block that
  its YAML engine rejects, kept whole. The library is taken to read in a block the data
  that \<^verbatim>\<open>matter.stringify\<close> wrote into it.

  The code calls \<^verbatim>\<open>matter(markdown)\<close> with no options, and then the library keeps every
  text it is given, in a cache that lives as long as the process, before it parses the text.
  A text it has met before is answered from the cache. For a text that was read without
  an exception this is what the first call returned. For a text whose block the YAML engine
  rejected, the first call throws, and the entry it left in the cache has empty data and the
  whole text as content: that is what every later call in the process returns. The state of
  the library is therefore the set \<open>cache\<close> of texts on which a call has thrown.

  The cache is a plain object with the text as the key. A text that is the name of a
  property that every object inherits is found there at once, and the answer made from what
  is found has neither data nor content: \<open>None\<close> below.

  \<^verbatim>\<open>matter.stringify(body, data)\<close> writes the block for \<open>data\<close> and then the body, ended by
  a line feed if it does not end with one.
\<close>

datatype markdown =
  Document DecisionFrontmatter jsstring | NoFrontMatter jsstring | BadFrontMatter jsstring

type_synonym matter_cache = "jsstring set"

definition Object_prototype_keys :: "jsstring list" where
  "Object_prototype_keys =
     [js ''constructor'', js ''__defineGetter__'', js ''__defineSetter__'',
      js ''hasOwnProperty'', js ''__lookupGetter__'', js ''__lookupSetter__'',
      js ''isPrototypeOf'', js ''propertyIsEnumerable'', js ''toString'', js ''valueOf'',
      js ''__proto__'', js ''toLocaleString'']"

fun matter ::
  "matter_cache \<Rightarrow> markdown
   \<Rightarrow> (error + (DecisionFrontmatter option \<times> jsstring) option) \<times> matter_cache" where
  "matter cache (Document data content) = (Inr (Some (Some data, content)), cache)"
| "matter cache (NoFrontMatter content) =
     (if content \<in> set Object_prototype_keys then (Inr None, cache)
      else (Inr (Some (None, content)), cache))"
| "matter cache (BadFrontMatter whole) =
     (if whole \<in> cache then (Inr (Some (None, whole)), cache)
      else (Inl YAMLException, insert whole cache))"

definition matter_stringify :: "jsstring \<Rightarrow> DecisionFrontmatter \<Rightarrow> markdown" where
  "matter_stringify body data =
     Document data (if body \<noteq> [] \<and> last body = LF then body else body @ [LF])"

text \<open>
  \<^verbatim>\<open>Array.prototype.sort\<close> with a comparator is a stable sort; a comparator result of
  \<^verbatim>\<open>NaN\<close> counts as zero. The comparator gives \<open>None\<close> for \<^verbatim>\<open>NaN\<close>. Where the results
  of the comparator do not order the elements consistently, as with \<^verbatim>\<open>NaN\<close> for some pairs
  only, the language leaves the order to the engine; the model then gives one order of the
  same elements.
\<close>

fun insert_sorted :: "('a \<Rightarrow> 'a \<Rightarrow> int option) \<Rightarrow> 'a \<Rightarrow> 'a list \<Rightarrow> 'a list" where
  "insert_sorted cmp x [] = [x]"
| "insert_sorted cmp x (y # ys) =
     (if (case cmp x y of None \<Rightarrow> 0 | Some v \<Rightarrow> v) \<le> 0 then x # y # ys
      else y # insert_sorted cmp x ys)"

definition Array_sort :: "('a \<Rightarrow> 'a \<Rightarrow> int option) \<Rightarrow> 'a list \<Rightarrow> 'a list" where
  "Array_sort cmp xs = foldr (insert_sorted cmp) xs []"

text \<open>The truth value of an optional string in a condition: set and not empty.\<close>

fun truthy :: "jsstring option \<Rightarrow> bool" where
  "truthy None = False"
| "truthy (Some s) = (s \<noteq> [])"

section \<open>The parser module: decision files\<close>

text \<open>
  The group \<^verbatim>\<open>([\s\S]*?)\<close> before the lookahead \<^verbatim>\<open>(?=\n## |\n*$)\<close>: the shortest text
  behind which a line feed and \<^verbatim>\<open>"## "\<close> follow, or nothing but line feeds is left.
\<close>

fun lazy_capture :: "jsstring \<Rightarrow> jsstring" where
  "lazy_capture [] = []"
| "lazy_capture (c # cs) =
     (if startsWith (c # cs) (LF # js ''## '') \<or> list_all (\<lambda>x. x = LF) (c # cs) then []
      else c # lazy_capture cs)"

text \<open>
  \<^verbatim>\<open>\s*\n\<close> behind the heading: the greedy run of white space is given back up to its
  last line feed; with no line feed in the run there is no match at this place.
\<close>

definition after_heading :: "jsstring \<Rightarrow> jsstring option" where
  "after_heading rest =
     (let run = takeWhile is_space rest in
      if LF \<notin> set run then None
      else Some (lazy_capture (rev (takeWhile (\<lambda>c. c \<noteq> LF) (rev run)) @ drop (length run) rest)))"

text \<open>
  \<^verbatim>\<open>content.match(/<heading>\s*\n([\s\S]*?)(?=\n## |\n*$)/)\<close>: the leftmost place where
  the expression matches, and its group.
\<close>

fun match_section :: "jsstring \<Rightarrow> jsstring \<Rightarrow> jsstring option" where
  "match_section heading [] = None"
| "match_section heading (c # cs) =
     (if startsWith (c # cs) heading
      then (case after_heading (drop (length heading) (c # cs)) of
              Some group1 \<Rightarrow> Some group1
            | None \<Rightarrow> match_section heading cs)
      else match_section heading cs)"

text \<open>
  \<^verbatim>\<open>parseDecision\<close> behind its call of the library: the two searches and the object. On
  an answer with no content the call \<^verbatim>\<open>content.match\<close> throws a \<^verbatim>\<open>TypeError\<close>.
\<close>

definition decision_object :: "DecisionFrontmatter option \<Rightarrow> jsstring \<Rightarrow> parsed" where
  "decision_object data content =
     (let contextMatch = match_section (js ''## Context'') content;
          consequencesMatch = match_section (js ''## Consequences'') content;
          context = map_option trim contextMatch;
          consequences = map_option trim consequencesMatch
      in case data of
           Some fm \<Rightarrow>
             Full (DecisionFrontmatter.extend fm
                     \<lparr>context' = context, consequences = consequences\<rparr>)
         | None \<Rightarrow> Fieldless context consequences)"

definition parseDecision :: "matter_cache \<Rightarrow> markdown \<Rightarrow> (error + parsed) \<times> matter_cache" where
  "parseDecision cache markdown =
     (case matter cache markdown of
        (Inl e, cache) \<Rightarrow> (Inl e, cache)
      | (Inr None, cache) \<Rightarrow> (Inl TypeError, cache)
      | (Inr (Some (data, content)), cache) \<Rightarrow> (Inr (decision_object data content), cache))"

definition serializeDecision :: "Decision \<Rightarrow> markdown" where
  "serializeDecision decision =
     (let frontmatter = DecisionFrontmatter.truncate decision;
          body = [];
          body = (if truthy (context' decision)
                  then body @ [LF] @ js ''## Context'' @ [LF, LF] @ the (context' decision) @ [LF]
                  else body);
          body = (if truthy (consequences decision)
                  then body @ [LF] @ js ''## Consequences'' @ [LF, LF] @ the (consequences decision) @ [LF]
                  else body)
      in matter_stringify body frontmatter)"

text \<open>
  The decisions that come back from their file as they were. A body text that is set and
  not empty is written under its heading, and it comes back from there when it has no white
  space at either end and no line feed followed by \<^verbatim>\<open>"## "\<close>. The search for the other
  heading goes through the text as well. \<open>found heading text\<close> is what that search reads
  in a body that ends with \<open>text\<close>: nothing when \<open>text\<close> does not hold the heading with only
  white space up to the end of its line; otherwise what stands behind the first such place,
  trimmed.
\<close>

fun contains :: "jsstring \<Rightarrow> jsstring \<Rightarrow> bool" where
  "contains [] p = (p = [])"
| "contains (c # cs) p = (startsWith (c # cs) p \<or> contains cs p)"

definition written_whole :: "jsstring \<Rightarrow> bool" where
  "written_whole t = (t \<noteq> [] \<and> trim t = t \<and> \<not> contains t (LF # js ''## ''))"

definition found :: "jsstring \<Rightarrow> jsstring \<Rightarrow> jsstring option" where
  "found heading text = map_option trim (match_section heading (text @ [LF]))"

text \<open>
  With a context written, the consequences come back from under their own heading when the
  search finds nothing in the context: then they are a text that comes back, or unset.
  When the search finds the heading in the context, it reads the consequences there: they
  are what it finds, and where the context ends with the heading, so that nothing stands
  behind it, they are the heading that the file has next, \<^verbatim>\<open>"## Consequences"\<close>, if
  consequences are written, and the empty string if none are. With the consequences
  written and no context, the context comes back as the search through the consequences
  finds it: unset, or empty where the consequences end with the heading. With neither
  text written, both fields come back unset.
\<close>

definition roundtrips :: "Decision \<Rightarrow> bool" where
  "roundtrips d =
     (if truthy (context' d)
      then written_whole (the (context' d)) \<and>
           (if truthy (consequences d)
            then (case found (js ''## Consequences'') (the (context' d)) of
                    None \<Rightarrow> written_whole (the (consequences d))
                  | Some x \<Rightarrow>
                      the (consequences d) = (if x = [] then js ''## Consequences'' else x))
            else found (js ''## Consequences'') (the (context' d)) = consequences d)
      else if truthy (consequences d)
      then written_whole (the (consequences d)) \<and>
           found (js ''## Context'') (the (consequences d)) = context' d
      else context' d = None \<and> consequences d = None)"

section \<open>The decision tree on disk\<close>

text \<open>
  The store owns the directory \<^verbatim>\<open>.decisions\<close>: one subdirectory for each status, which may
  be missing, and the file \<^verbatim>\<open>index.json\<close>, which may be missing. A directory is the list of
  its entries, a name and a text each, in the order \<^verbatim>\<open>readdir\<close> gives them. The text of the
  index file is either what \<^verbatim>\<open>JSON.stringify(index, null, 2)\<close> wrote for an index, or any
  other text.
\<close>

type_synonym directory = "(jsstring \<times> markdown) list"

datatype index_text = Stringified DecisionIndex | OtherText jsstring

record decisions_tree =
  subdirectory :: "DecisionStatus \<Rightarrow> directory option"
  index_json :: "index_text option"

definition STATUS_DIRS :: "DecisionStatus list" where
  "STATUS_DIRS = [active, superseded, archived]"

fun status_name :: "DecisionStatus \<Rightarrow> jsstring" where
  "status_name active = js ''active''"
| "status_name superseded = js ''superseded''"
| "status_name archived = js ''archived''"

text \<open>\<^verbatim>\<open>fs.mkdir(dir, { recursive: true })\<close>: an existing directory stays as it is.\<close>

definition mkdir :: "DecisionStatus \<Rightarrow> decisions_tree \<Rightarrow> decisions_tree" where
  "mkdir dir fs =
     (case subdirectory fs dir of
        Some files \<Rightarrow> fs
      | None \<Rightarrow> fs\<lparr>subdirectory := (subdirectory fs)(dir := Some [])\<rparr>)"

text \<open>
  \<^verbatim>\<open>fs.writeFile\<close> into a directory: the text of an entry with this name is replaced, a
  new name is entered at the place the platform lists it. The store writes into a status
  directory only after \<^verbatim>\<open>mkdir\<close> of that directory, so the directory is there.
\<close>

definition write_entry :: "platform \<Rightarrow> jsstring \<Rightarrow> markdown \<Rightarrow> directory \<Rightarrow> directory" where
  "write_entry P name text files =
     (if name \<in> fst ` set files
      then map (\<lambda>(n, t). if n = name then (n, text) else (n, t)) files
      else let place = readdir_place P (map fst files) name
           in take place files @ (name, text) # drop place files)"

definition writeFile ::
  "platform \<Rightarrow> DecisionStatus \<Rightarrow> jsstring \<Rightarrow> markdown \<Rightarrow> decisions_tree \<Rightarrow> decisions_tree" where
  "writeFile P dir name text fs =
     (case subdirectory fs dir of
        Some files \<Rightarrow>
          fs\<lparr>subdirectory := (subdirectory fs)(dir := Some (write_entry P name text files))\<rparr>
      | None \<Rightarrow> fs)"

section \<open>The index builder\<close>

text \<open>
  The comparator of both sorts, \<^verbatim>\<open>new Date(b.created).getTime() - new Date(a.created).getTime()\<close>,
  on the \<^verbatim>\<open>created\<close> fields of its two arguments; an absent field gives an invalid date.
\<close>

definition created_time :: "platform \<Rightarrow> jsstring option \<Rightarrow> int option" where
  "created_time P c = (case c of None \<Rightarrow> None | Some s \<Rightarrow> Date_getTime P s)"

definition newest_first :: "platform \<Rightarrow> ('a \<Rightarrow> jsstring option) \<Rightarrow> 'a \<Rightarrow> 'a \<Rightarrow> int option" where
  "newest_first P field a b =
     (case (created_time P (field b), created_time P (field a)) of
        (Some tb, Some ta) \<Rightarrow> Some (tb - ta)
      | _ \<Rightarrow> None)"

fun entry_created_field :: "index_entry \<Rightarrow> jsstring option" where
  "entry_created_field (Entry e) = Some (entry_created e)"
| "entry_created_field (FileOnly f) = None"

fun parsed_created_field :: "parsed \<Rightarrow> jsstring option" where
  "parsed_created_field (Full d) = Some (created d)"
| "parsed_created_field (Fieldless c q) = None"

fun make_entry :: "parsed \<Rightarrow> jsstring \<Rightarrow> index_entry" where
  "make_entry (Full decision) file =
     Entry \<lparr>entry_id = id' decision, entry_summary = summary decision,
            entry_scope = scope decision, entry_tags = tags decision,
            entry_status = status decision, entry_created = created decision,
            entry_file = file\<rparr>"
| "make_entry (Fieldless c q) file = FileOnly file"

text \<open>
  The loop over the files of one directory, and the loop over the directories. Every
  function that reads decision files takes the state of the front-matter library and
  returns it with its result; an exception leaves the state as the failed call made it.
\<close>

fun index_files ::
  "matter_cache \<Rightarrow> DecisionStatus \<Rightarrow> directory \<Rightarrow> index_entry list
   \<Rightarrow> (error + index_entry list) \<times> matter_cache" where
  "index_files cache status' [] entries = (Inr entries, cache)"
| "index_files cache status' ((file, content) # rest) entries =
     (if \<not> endsWith file (js ''.md'') then index_files cache status' rest entries
      else case parseDecision cache content of
             (Inl e, cache) \<Rightarrow> (Inl e, cache)
           | (Inr decision, cache) \<Rightarrow>
               index_files cache status' rest
                 (entries @ [make_entry decision (status_name status' @ js ''/'' @ file)]))"

fun index_dirs ::
  "matter_cache \<Rightarrow> decisions_tree \<Rightarrow> DecisionStatus list \<Rightarrow> index_entry list
   \<Rightarrow> (error + index_entry list) \<times> matter_cache" where
  "index_dirs cache fs [] entries = (Inr entries, cache)"
| "index_dirs cache fs (status' # dirs) entries =
     (case subdirectory fs status' of
        None \<Rightarrow> index_dirs cache fs dirs entries
      | Some files \<Rightarrow>
          (case index_files cache status' files entries of
             (Inl e, cache) \<Rightarrow> (Inl e, cache)
           | (Inr entries', cache) \<Rightarrow> index_dirs cache fs dirs entries'))"

text \<open>\<open>now\<close> is \<^verbatim>\<open>new Date().toISOString()\<close> at the time of the call.\<close>

definition rebuildIndex ::
  "platform \<Rightarrow> jsstring \<Rightarrow> matter_cache \<Rightarrow> decisions_tree
   \<Rightarrow> (error + DecisionIndex) \<times> decisions_tree \<times> matter_cache" where
  "rebuildIndex P now cache fs =
     (case index_dirs cache fs STATUS_DIRS [] of
        (Inl e, cache) \<Rightarrow> (Inl e, fs, cache)
      | (Inr entries, cache) \<Rightarrow>
          let index = \<lparr>version = 1, index_updated = now,
                       decisions = Array_sort (newest_first P entry_created_field) entries\<rparr>
          in (Inr index, fs\<lparr>index_json := Some (Stringified index)\<rparr>, cache))"

section \<open>The decision store\<close>

definition init :: "jsstring \<Rightarrow> decisions_tree \<Rightarrow> decisions_tree" where
  "init now fs =
     (let fs = foldl (\<lambda>fs dir. mkdir dir fs) fs STATUS_DIRS in
      case index_json fs of
        Some text \<Rightarrow> fs
      | None \<Rightarrow>
          let emptyIndex = \<lparr>version = 1, index_updated = now, decisions = []\<rparr>
          in fs\<lparr>index_json := Some (Stringified emptyIndex)\<rparr>)"

definition create ::
  "platform \<Rightarrow> jsstring \<Rightarrow> matter_cache \<Rightarrow> decisions_tree \<Rightarrow> Decision
   \<Rightarrow> (error + Decision) \<times> decisions_tree \<times> matter_cache" where
  "create P now cache fs decision =
     (let fs = mkdir (status decision) fs;
          slug = slugify P (summary decision);
          filename = slug @ js ''.md'';
          markdown = serializeDecision decision;
          fs = writeFile P (status decision) filename markdown fs
      in case rebuildIndex P now cache fs of
           (Inl e, fs, cache) \<Rightarrow> (Inl e, fs, cache)
         | (Inr index, fs, cache) \<Rightarrow> (Inr decision, fs, cache))"

text \<open>
  \<^verbatim>\<open>get\<close>: the inner loop returns from the function at the first decision whose id is the
  one asked for; \<^verbatim>\<open>decision.id === id\<close> is false for an object with no id.
\<close>

fun get_files ::
  "matter_cache \<Rightarrow> directory \<Rightarrow> jsstring \<Rightarrow> (error + Decision option) \<times> matter_cache" where
  "get_files cache [] ident = (Inr None, cache)"
| "get_files cache ((file, content) # rest) ident =
     (if \<not> endsWith file (js ''.md'') then get_files cache rest ident
      else case parseDecision cache content of
             (Inl e, cache) \<Rightarrow> (Inl e, cache)
           | (Inr (Full decision), cache) \<Rightarrow>
               if id' decision = ident then (Inr (Some decision), cache)
               else get_files cache rest ident
           | (Inr (Fieldless c q), cache) \<Rightarrow> get_files cache rest ident)"

fun get_dirs ::
  "matter_cache \<Rightarrow> decisions_tree \<Rightarrow> DecisionStatus list \<Rightarrow> jsstring
   \<Rightarrow> (error + Decision option) \<times> matter_cache" where
  "get_dirs cache fs [] ident = (Inr None, cache)"
| "get_dirs cache fs (status' # dirs) ident =
     (case subdirectory fs status' of
        None \<Rightarrow> get_dirs cache fs dirs ident
      | Some files \<Rightarrow>
          (case get_files cache files ident of
             (Inl e, cache) \<Rightarrow> (Inl e, cache)
           | (Inr (Some decision), cache) \<Rightarrow> (Inr (Some decision), cache)
           | (Inr None, cache) \<Rightarrow> get_dirs cache fs dirs ident))"

definition get ::
  "matter_cache \<Rightarrow> decisions_tree \<Rightarrow> jsstring \<Rightarrow> (error + Decision option) \<times> matter_cache" where
  "get cache fs ident = get_dirs cache fs STATUS_DIRS ident"

text \<open>
  The two filters of \<^verbatim>\<open>list\<close>. Each is skipped when its option is absent or empty; on an
  object with no \<^verbatim>\<open>tags\<close> or \<^verbatim>\<open>scope\<close> the method call throws a \<^verbatim>\<open>TypeError\<close>.
\<close>

definition tags_filter :: "QueryOptions \<Rightarrow> parsed \<Rightarrow> error + bool" where
  "tags_filter options decision =
     (case tags_option options of
        None \<Rightarrow> Inr True
      | Some ts \<Rightarrow>
          if length ts > 0
          then (case decision of
                  Full d \<Rightarrow> Inr (list_ex (\<lambda>t. t \<in> set (tags d)) ts)
                | Fieldless c q \<Rightarrow> Inl TypeError)
          else Inr True)"

definition scope_filter :: "platform \<Rightarrow> QueryOptions \<Rightarrow> parsed \<Rightarrow> error + bool" where
  "scope_filter P options decision =
     (if truthy (scope_option options)
      then (case decision of
              Full d \<Rightarrow> Inr (list_ex (\<lambda>pattern. minimatch P (the (scope_option options)) pattern) (scope d))
            | Fieldless c q \<Rightarrow> Inl TypeError)
      else Inr True)"

fun list_files ::
  "platform \<Rightarrow> QueryOptions \<Rightarrow> matter_cache \<Rightarrow> directory \<Rightarrow> parsed list
   \<Rightarrow> (error + parsed list) \<times> matter_cache" where
  "list_files P options cache [] results = (Inr results, cache)"
| "list_files P options cache ((file, content) # rest) results =
     (if \<not> endsWith file (js ''.md'') then list_files P options cache rest results
      else case parseDecision cache content of
             (Inl e, cache) \<Rightarrow> (Inl e, cache)
           | (Inr decision, cache) \<Rightarrow>
               (case tags_filter options decision of
                  Inl e \<Rightarrow> (Inl e, cache)
                | Inr False \<Rightarrow> list_files P options cache rest results
                | Inr True \<Rightarrow>
                    (case scope_filter P options decision of
                       Inl e \<Rightarrow> (Inl e, cache)
                     | Inr False \<Rightarrow> list_files P options cache rest results
                     | Inr True \<Rightarrow> list_files P options cache rest (results @ [decision]))))"

fun list_dirs ::
  "platform \<Rightarrow> QueryOptions \<Rightarrow> matter_cache \<Rightarrow> decisions_tree \<Rightarrow> DecisionStatus list
   \<Rightarrow> parsed list \<Rightarrow> (error + parsed list) \<times> matter_cache" where
  "list_dirs P options cache fs [] results = (Inr results, cache)"
| "list_dirs P options cache fs (status' # dirs) results =
     (case subdirectory fs status' of
        None \<Rightarrow> list_dirs P options cache fs dirs results
      | Some files \<Rightarrow>
          (case list_files P options cache files results of
             (Inl e, cache) \<Rightarrow> (Inl e, cache)
           | (Inr results', cache) \<Rightarrow> list_dirs P options cache fs dirs results'))"

definition list_decisions ::
  "platform \<Rightarrow> matter_cache \<Rightarrow> decisions_tree \<Rightarrow> QueryOptions
   \<Rightarrow> (error + parsed list) \<times> matter_cache" where
  "list_decisions P cache fs options =
     (let statusDirs = (case status_option options of Some s \<Rightarrow> [s] | None \<Rightarrow> STATUS_DIRS) in
      case list_dirs P options cache fs statusDirs [] of
        (Inl e, cache) \<Rightarrow> (Inl e, cache)
      | (Inr results, cache) \<Rightarrow>
          (Inr (Array_sort (newest_first P parsed_created_field) results), cache))"

text \<open>\<open>root\<close> is the project root the store was made for.\<close>

definition queryByFilePath ::
  "platform \<Rightarrow> jsstring \<Rightarrow> matter_cache \<Rightarrow> decisions_tree \<Rightarrow> jsstring
   \<Rightarrow> (error + parsed list) \<times> matter_cache" where
  "queryByFilePath P root cache fs filePath =
     (let relativePath = (if path_isAbsolute P filePath then path_relative P root filePath
                          else filePath)
      in list_decisions P cache fs
           \<lparr>status_option = Some active, tags_option = None, scope_option = Some relativePath\<rparr>)"

section \<open>Notions for stating the properties of the store\<close>

text \<open>The entries of a status directory, none when the directory is missing.\<close>

definition dir_files :: "decisions_tree \<Rightarrow> DecisionStatus \<Rightarrow> directory" where
  "dir_files fs dir = (case subdirectory fs dir of None \<Rightarrow> [] | Some files \<Rightarrow> files)"

text \<open>The order in which a scan of all three directories meets the entries.\<close>

definition scan_order :: "decisions_tree \<Rightarrow> directory" where
  "scan_order fs = dir_files fs active @ dir_files fs superseded @ dir_files fs archived"

text \<open>
  The decision that a file holds: the object \<^verbatim>\<open>parseDecision\<close> returns for a text with a
  front-matter block. The decisions with a given id among the \<^verbatim>\<open>.md\<close> files of a
  directory, in its order.
\<close>

fun decision_in :: "markdown \<Rightarrow> Decision option" where
  "decision_in (Document data content) =
     (case decision_object (Some data) content of Full d \<Rightarrow> Some d | Fieldless c q \<Rightarrow> None)"
| "decision_in (NoFrontMatter content) = None"
| "decision_in (BadFrontMatter whole) = None"

fun decisions_with_id :: "directory \<Rightarrow> jsstring \<Rightarrow> Decision list" where
  "decisions_with_id [] ident = []"
| "decisions_with_id ((file, content) # rest) ident =
     (if endsWith file (js ''.md'')
      then (case decision_in content of
              Some d \<Rightarrow>
                if id' d = ident then d # decisions_with_id rest ident
                else decisions_with_id rest ident
            | None \<Rightarrow> decisions_with_id rest ident)
      else decisions_with_id rest ident)"

text \<open>
  A directory, and a tree, in which \<^verbatim>\<open>parseDecision\<close> raises on no \<^verbatim>\<open>.md\<close> file, in a
  given state of the library.
\<close>

definition parses :: "matter_cache \<Rightarrow> markdown \<Rightarrow> bool" where
  "parses cache text = (case fst (parseDecision cache text) of Inl e \<Rightarrow> False | Inr d \<Rightarrow> True)"

definition readable_dir :: "matter_cache \<Rightarrow> directory \<Rightarrow> bool" where
  "readable_dir cache files =
     list_all (\<lambda>(file, content). \<not> endsWith file (js ''.md'') \<or> parses cache content) files"

definition readable :: "matter_cache \<Rightarrow> decisions_tree \<Rightarrow> bool" where
  "readable cache fs = list_all (\<lambda>dir. readable_dir cache (dir_files fs dir)) STATUS_DIRS"

text \<open>The tree with one more entry put into a directory, anywhere in its order.\<close>

definition with_entry ::
  "DecisionStatus \<Rightarrow> directory \<Rightarrow> jsstring \<times> markdown \<Rightarrow> directory \<Rightarrow> decisions_tree \<Rightarrow> decisions_tree" where
  "with_entry dir before entry after fs =
     fs\<lparr>subdirectory := (subdirectory fs)(dir := Some (before @ entry # after))\<rparr>"


text \<open>
  The decisions of the \<^verbatim>\<open>.md\<close> files of a directory, in its order, and the directories all of
  whose \<^verbatim>\<open>.md\<close> files hold a decision with its front matter.
\<close>

fun stored_decisions :: "directory \<Rightarrow> Decision list" where
  "stored_decisions [] = []"
| "stored_decisions ((file, content) # rest) =
     (if endsWith file (js ''.md'')
      then (case decision_in content of
              Some d \<Rightarrow> d # stored_decisions rest
            | None \<Rightarrow> stored_decisions rest)
      else stored_decisions rest)"

definition all_decisions :: "directory \<Rightarrow> bool" where
  "all_decisions files =
     list_all (\<lambda>(file, content). \<not> endsWith file (js ''.md'') \<or> decision_in content \<noteq> None) files"

text \<open>The path that \<^verbatim>\<open>queryByFilePath\<close> hands to \<^verbatim>\<open>list\<close>.\<close>

definition normalized_path :: "platform \<Rightarrow> jsstring \<Rightarrow> jsstring \<Rightarrow> jsstring" where
  "normalized_path P root filePath =
     (if path_isAbsolute P filePath then path_relative P root filePath else filePath)"

section \<open>Example data\<close>

definition example_decision :: Decision where
  "example_decision =
     \<lparr>id' = js ''dec_20260212_test01'', summary = js ''Use PostgreSQL for persistence'',
      rationale = js ''ACID compliance'', scope = [js ''src/db/**/*.ts''], tags = [js ''database''],
      author = js ''rheapatel'', source = conversation, confidence = explicit, status = active,
      created = js ''2026-02-12T09:30:00Z'', updated = None, supersededBy = None,
      context' = Some (js ''Line 1 of context.'' @ [LF, LF] @ js ''Line 2 with details.''),
      consequences = Some (js ''All persistence goes through PostgreSQL.'')\<rparr>"

text \<open>A context of three paragraphs, the second a heading of its own.\<close>

definition heading_decision :: Decision where
  "heading_decision = example_decision
     \<lparr>context' := Some (js ''Overview'' @ [LF, LF] @ js ''## Details'' @ [LF, LF] @ js ''More'')\<rparr>"

text \<open>
  Contexts with white space around them, one of them the ideographic space U+3000, a
  context with no text, and consequences with a heading of their own.
\<close>

definition padded_decision :: Decision where
  "padded_decision = example_decision\<lparr>context' := Some (js ''  Evaluating database options. '')\<rparr>"

definition wide_padded_decision :: Decision where
  "wide_padded_decision =
     example_decision\<lparr>context' := Some (js ''Evaluating database options.'' @ [0x3000])\<rparr>"

definition empty_context_decision :: Decision where
  "empty_context_decision = example_decision\<lparr>context' := Some []\<rparr>"

definition heading_consequences_decision :: Decision where
  "heading_consequences_decision = example_decision
     \<lparr>consequences := Some (js ''Migrations are needed.'' @ [LF] @ js ''## Risks'' @ [LF] @ js ''None known.'')\<rparr>"

text \<open>
  A context that names the other section at the end of a line, and consequences that do so
  with no context set. A context that ends with the name of the other section, and
  consequences that do so with no context set. Empty consequences, and both texts empty.
\<close>

definition inline_heading_decision :: Decision where
  "inline_heading_decision = example_decision
     \<lparr>context' := Some (js ''The trade-offs are listed under ## Consequences'' @ [LF] @ js ''below.'')\<rparr>"

definition consequences_only_decision :: Decision where
  "consequences_only_decision = example_decision
     \<lparr>context' := None,
      consequences := Some (js ''This replaces what stood under ## Context'' @ [LF] @ js ''before.'')\<rparr>"

definition trailing_heading_decision :: Decision where
  "trailing_heading_decision = example_decision\<lparr>context' := Some (js ''See ## Consequences'')\<rparr>"

definition trailing_context_decision :: Decision where
  "trailing_context_decision = example_decision
     \<lparr>context' := None, consequences := Some (js ''This replaces ## Context'')\<rparr>"

definition empty_consequences_decision :: Decision where
  "empty_consequences_decision = example_decision\<lparr>consequences := Some []\<rparr>"

definition empty_both_decision :: Decision where
  "empty_both_decision = example_decision\<lparr>context' := Some [], consequences := Some []\<rparr>"

text \<open>
  Decisions that come back as they were: a context that names the other section within a
  line, one whose text behind that name is the consequences, and the three in which a
  text ends with the name of the other section and the other field is what the parser
  reads there.
\<close>

definition midline_heading_decision :: Decision where
  "midline_heading_decision = example_decision
     \<lparr>context' := Some (js ''See ## Consequences for the trade-offs.''),
      consequences := Some (js ''The roles are described under ## Context above.'')\<rparr>"

definition repeated_decision :: Decision where
  "repeated_decision = example_decision
     \<lparr>context' := Some (js ''In short, ## Consequences'' @ [LF] @ js ''All persistence goes through PostgreSQL.'')\<rparr>"

definition echo_decision :: Decision where
  "echo_decision = example_decision
     \<lparr>context' := Some (js ''See ## Consequences''), consequences := Some (js ''## Consequences'')\<rparr>"

definition echo_empty_decision :: Decision where
  "echo_empty_decision = example_decision
     \<lparr>context' := Some (js ''See ## Consequences''), consequences := Some []\<rparr>"

definition echo_context_decision :: Decision where
  "echo_context_decision = example_decision
     \<lparr>context' := Some [], consequences := Some (js ''This replaces ## Context'')\<rparr>"

text \<open>
  A summary in Japanese, one that is the Kelvin sign alone, and one of more than 60
  characters.
\<close>

definition japanese_summary :: jsstring where
  "japanese_summary = [0x65E5, 0x672C, 0x8A9E, 0x306E, 0x8981, 0x7D04]"

definition kelvin_summary :: jsstring where
  "kelvin_summary = [0x212A]"

definition long_summary :: jsstring where
  "long_summary = js ''Use PostgreSQL for persistence and route each query through the repository layer''"

text \<open>
  A decision that applies nowhere, an older one under the id of the first example, and a
  second decision with an id of its own.
\<close>

definition unscoped_decision :: Decision where
  "unscoped_decision = example_decision\<lparr>scope := []\<rparr>"

definition old_decision :: Decision where
  "old_decision = example_decision
     \<lparr>summary := js ''Use SQLite for persistence'', status := superseded,
      created := js ''2026-01-05T08:00:00Z''\<rparr>"

definition second_decision :: Decision where
  "second_decision = example_decision
     \<lparr>id' := js ''dec_20260212_test02'', summary := js ''Use Redis for caching''\<rparr>"

text \<open>
  A platform to evaluate examples on. Its lower-casing knows the letters of ASCII and of
  Latin-1, the Kelvin sign and the capital I with dot above, and leaves every other code
  unit. Its matcher knows literal patterns only, its dates all parse to one instant, its
  paths are as on POSIX for a path at or under the root, and it lists a new name behind the
  names that are there.
\<close>

definition example_lower_unit :: "code_unit \<Rightarrow> jsstring" where
  "example_lower_unit n =
     (if (65 \<le> n \<and> n \<le> 90) \<or> (192 \<le> n \<and> n \<le> 222 \<and> n \<noteq> 215) then [n + 32]
      else if n = 0x212A then [0x6B]
      else if n = 0x130 then [0x69, 0x307]
      else [n])"

definition example_toLowerCase :: "jsstring \<Rightarrow> jsstring" where
  "example_toLowerCase s = concat (map example_lower_unit s)"

definition example_platform :: platform where
  "example_platform =
     \<lparr>String_toLowerCase = example_toLowerCase,
      minimatch = (\<lambda>path pattern. path = pattern),
      Date_getTime = (\<lambda>s. Some 0),
      path_isAbsolute = (\<lambda>path. startsWith path (js ''/'')),
      path_relative = (\<lambda>root path. drop (length root + 1) path),
      readdir_place = (\<lambda>names name. length names)\<rparr>"

definition empty_tree :: decisions_tree where
  "empty_tree = \<lparr>subdirectory = (\<lambda>dir. None), index_json = None\<rparr>"

definition tree_of :: "directory \<Rightarrow> directory \<Rightarrow> decisions_tree" where
  "tree_of active_files superseded_files =
     \<lparr>subdirectory = (\<lambda>dir. case dir of active \<Rightarrow> Some active_files
                                | superseded \<Rightarrow> Some superseded_files
                                | archived \<Rightarrow> Some []),
      index_json = Some (OtherText (js ''corrupted!''))\<rparr>"

definition example_file :: "jsstring \<times> markdown" where
  "example_file = (js ''use-postgresql-for-persistence.md'', serializeDecision example_decision)"

definition stored_tree :: decisions_tree where
  "stored_tree = tree_of [example_file] []"

definition two_status_tree :: decisions_tree where
  "two_status_tree =
     tree_of [example_file] [(js ''use-sqlite-for-persistence.md'', serializeDecision old_decision)]"

text \<open>
  A note without front matter, a file whose front matter is not YAML, and a note whose
  text is the name of a property of every object.
\<close>

definition notes_tree :: decisions_tree where
  "notes_tree =
     tree_of [(js ''notes.md'', NoFrontMatter (js ''Remember to review the caching decision.''))] []"

definition broken_text :: jsstring where
  "broken_text = js ''---'' @ [LF] @ js ''id: [unclosed'' @ [LF] @ js ''---'' @ [LF] @ js ''Body''"

definition broken_tree :: decisions_tree where
  "broken_tree = tree_of [example_file, (js ''broken.md'', BadFrontMatter broken_text)] []"

definition inherited_tree :: decisions_tree where
  "inherited_tree = tree_of [(js ''draft.md'', NoFrontMatter (js ''constructor''))] []"

definition unscoped_tree :: decisions_tree where
  "unscoped_tree =
     tree_of [(js ''use-postgresql-for-persistence.md'', serializeDecision unscoped_decision)] []"

section \<open>Evaluating the definitions\<close>

text \<open>The definitions that the evaluation of an example unfolds.\<close>

lemmas text_defs = js_def LF_def hyphen_def is_space_def is_alnum_def ascii_lower_def trim_def
  startsWith_def endsWith_def after_heading_def strip_trailing_hyphen_def strip_edge_hyphens_def

lemmas parser_defs = parseDecision_def decision_object_def serializeDecision_def
  matter_stringify_def DecisionFrontmatter.extend_def DecisionFrontmatter.truncate_def Let_def

section \<open>File names\<close>

lemma replace_runs_chars: "set (replace_runs s) \<subseteq> {c. is_alnum c} \<union> {hyphen}"
proof (induction s rule: replace_runs.induct)
  case 1
  show ?case by simp
next
  case (2 c cs)
  then show ?case by auto
qed

lemma hyphen_not_alnum: "\<not> is_alnum hyphen"
  by (simp add: is_alnum_def hyphen_def)

lemma replace_runs_head:
  "xs = [] \<or> is_alnum (hd xs) \<Longrightarrow> replace_runs xs \<noteq> hyphen # r"
  using hyphen_not_alnum by (cases xs) auto

lemma replace_runs_dropWhile_head:
  "replace_runs (dropWhile (\<lambda>x. \<not> is_alnum x) cs) \<noteq> hyphen # r"
proof (rule replace_runs_head)
  show "dropWhile (\<lambda>x. \<not> is_alnum x) cs = [] \<or> is_alnum (hd (dropWhile (\<lambda>x. \<not> is_alnum x) cs))"
    using hd_dropWhile[of "\<lambda>x. \<not> is_alnum x" cs] by blast
qed

lemma no_adjacent_Cons:
  "no_adjacent_hyphens (a # xs) = ((a = hyphen \<longrightarrow> (\<forall>r. xs \<noteq> hyphen # r)) \<and> no_adjacent_hyphens xs)"
  by (cases xs) auto

lemma replace_runs_no_adjacent: "no_adjacent_hyphens (replace_runs s)"
proof (induction s rule: replace_runs.induct)
  case 1
  show ?case by simp
next
  case (2 c cs)
  show ?case
  proof (cases "is_alnum c")
    case True
    with 2 hyphen_not_alnum show ?thesis by (auto simp: no_adjacent_Cons)
  next
    case False
    with 2 replace_runs_dropWhile_head show ?thesis by (auto simp: no_adjacent_Cons)
  qed
qed

lemma no_adjacent_take: "no_adjacent_hyphens xs \<Longrightarrow> no_adjacent_hyphens (take n xs)"
proof (induction xs arbitrary: n)
  case Nil
  then show ?case by simp
next
  case (Cons a xs)
  show ?case
  proof (cases n)
    case 0
    then show ?thesis by simp
  next
    case (Suc k)
    from Cons have IH: "no_adjacent_hyphens (take k xs)" by (simp add: no_adjacent_Cons)
    have "a = hyphen \<Longrightarrow> take k xs = hyphen # r \<Longrightarrow> False" for r
      using Cons.prems by (cases xs; cases k) (auto simp: no_adjacent_Cons)
    with IH Suc show ?thesis by (auto simp: no_adjacent_Cons)
  qed
qed

lemma no_adjacent_butlast: "no_adjacent_hyphens xs \<Longrightarrow> no_adjacent_hyphens (butlast xs)"
  using no_adjacent_take[of xs "length xs - 1"] by (simp add: butlast_conv_take)

lemma no_adjacent_snoc:
  "no_adjacent_hyphens (xs @ [hyphen]) \<Longrightarrow> xs \<noteq> ys @ [hyphen]"
  by (induction xs arbitrary: ys rule: no_adjacent_hyphens.induct)
     (auto simp: Cons_eq_append_conv no_adjacent_Cons)

lemma strip_trailing_no_adjacent:
  "no_adjacent_hyphens xs \<Longrightarrow> no_adjacent_hyphens (strip_trailing_hyphen xs)"
  by (simp add: strip_trailing_hyphen_def no_adjacent_butlast)

lemma strip_trailing_last:
  assumes "no_adjacent_hyphens xs"
  shows "strip_trailing_hyphen xs \<noteq> r @ [hyphen]"
proof (cases "xs \<noteq> [] \<and> last xs = hyphen")
  case True
  then have xs: "xs = butlast xs @ [hyphen]" by (metis append_butlast_last_id)
  with assms no_adjacent_snoc[of "butlast xs" r] have "butlast xs \<noteq> r @ [hyphen]" by metis
  with True show ?thesis by (simp add: strip_trailing_hyphen_def)
next
  case False
  then show ?thesis by (auto simp: strip_trailing_hyphen_def)
qed

lemma strip_trailing_subset: "set (strip_trailing_hyphen xs) \<subseteq> set xs"
  by (auto simp: strip_trailing_hyphen_def dest: in_set_butlastD)

lemma strip_trailing_head:
  "\<forall>r'. xs \<noteq> hyphen # r' \<Longrightarrow> strip_trailing_hyphen xs \<noteq> hyphen # r"
  by (cases xs) (auto simp: strip_trailing_hyphen_def split: if_splits)

lemma take_head: "\<forall>r'. xs \<noteq> hyphen # r' \<Longrightarrow> take n xs \<noteq> hyphen # r"
  by (cases xs; cases n) auto

lemma strip_edge_head:
  "no_adjacent_hyphens xs \<Longrightarrow> strip_edge_hyphens xs \<noteq> hyphen # r"
  unfolding strip_edge_hyphens_def
  by (rule strip_trailing_head) (auto simp: no_adjacent_Cons split: list.splits)

lemma strip_edge_no_adjacent:
  "no_adjacent_hyphens xs \<Longrightarrow> no_adjacent_hyphens (strip_edge_hyphens xs)"
  unfolding strip_edge_hyphens_def
  by (rule strip_trailing_no_adjacent) (auto simp: no_adjacent_Cons split: list.splits)

lemma strip_edge_subset: "set (strip_edge_hyphens xs) \<subseteq> set xs"
  unfolding strip_edge_hyphens_def
  using strip_trailing_subset by (fastforce split: list.splits if_splits)

lemma replace_runs_symbols:
  "list_all (\<lambda>c. \<not> is_alnum c) xs \<Longrightarrow> replace_runs xs = (if xs = [] then [] else [hyphen])"
proof (cases xs)
  case Nil
  then show ?thesis by simp
next
  case (Cons a as)
  assume "list_all (\<lambda>c. \<not> is_alnum c) xs"
  with Cons have a: "\<not> is_alnum a" and d: "dropWhile (\<lambda>x. \<not> is_alnum x) as = []"
    by (simp_all add: list_all_iff)
  show ?thesis unfolding Cons by (simp add: a d)
qed

lemma slugify_chars: "set (slugify P s) \<subseteq> {c. is_alnum c} \<union> {hyphen}"
  unfolding slugify_def
  using strip_trailing_subset strip_edge_subset replace_runs_chars set_take_subset
  by (meson subset_trans)

lemma slugify_no_adjacent: "no_adjacent_hyphens (slugify P s)"
  unfolding slugify_def
  by (intro strip_trailing_no_adjacent no_adjacent_take strip_edge_no_adjacent replace_runs_no_adjacent)

lemma slugify_no_leading_hyphen: "slugify P s \<noteq> hyphen # r"
  unfolding slugify_def
  by (intro strip_trailing_head allI take_head strip_edge_head replace_runs_no_adjacent)

lemma slugify_no_trailing_hyphen: "slugify P s \<noteq> r @ [hyphen]"
  unfolding slugify_def
  by (intro strip_trailing_last no_adjacent_take strip_edge_no_adjacent replace_runs_no_adjacent)

lemma strip_trailing_length: "length (strip_trailing_hyphen xs) \<le> length xs"
  by (simp add: strip_trailing_hyphen_def)

lemma slugify_length: "length (slugify P s) \<le> 60"
  unfolding slugify_def
  using strip_trailing_length[of "take 60 (strip_edge_hyphens (replace_runs (String_toLowerCase P s)))"]
  by simp

lemma slugify_symbols_only:
  assumes "lowers_letters_only (String_toLowerCase P)"
    and "list_all (\<lambda>n. \<not> letter_or_digit n) s"
  shows "slugify P s = []"
proof -
  from assms have "list_all (\<lambda>n. \<not> is_alnum n) (String_toLowerCase P s)"
    by (simp add: lowers_letters_only_def)
  then have "replace_runs (String_toLowerCase P s)
               = (if String_toLowerCase P s = [] then [] else [hyphen])"
    by (rule replace_runs_symbols)
  then show ?thesis
    by (simp add: slugify_def strip_edge_hyphens_def strip_trailing_hyphen_def)
qed

lemma slugify_ascii:
  assumes "lowers_ascii (String_toLowerCase P)" and "list_all (\<lambda>n. n < 128) s"
  shows "slugify P s
           = strip_trailing_hyphen (take 60 (strip_edge_hyphens (replace_runs (map ascii_lower s))))"
    and "slugifyForDisplay P s = take 60 (strip_edge_hyphens (replace_runs (map ascii_lower s)))"
  using assms by (simp_all add: slugify_def slugifyForDisplay_def lowers_ascii_def)

lemma example_lower_unit_ascii: "n < 128 \<Longrightarrow> example_lower_unit n = [ascii_lower n]"
  by (simp add: example_lower_unit_def ascii_lower_def)

lemma example_lowers_ascii: "lowers_ascii (String_toLowerCase example_platform)"
proof -
  have "list_all (\<lambda>n. n < 128) s \<Longrightarrow> example_toLowerCase s = map ascii_lower s" for s
    by (induction s) (simp_all add: example_toLowerCase_def example_lower_unit_ascii)
  then show ?thesis by (simp add: lowers_ascii_def example_platform_def)
qed

lemma example_lower_unit_other:
  "\<not> letter_or_digit n \<Longrightarrow> list_all (\<lambda>n. \<not> is_alnum n) (example_lower_unit n)"
  by (auto simp: example_lower_unit_def letter_or_digit_def ascii_alphanumeric_def is_alnum_def)

lemma example_lowers_letters_only: "lowers_letters_only (String_toLowerCase example_platform)"
proof -
  have "list_all (\<lambda>n. \<not> letter_or_digit n) s
          \<Longrightarrow> list_all (\<lambda>n. \<not> is_alnum n) (example_toLowerCase s)" for s
    by (induction s) (simp_all add: example_toLowerCase_def example_lower_unit_other)
  then show ?thesis by (simp add: lowers_letters_only_def example_platform_def)
qed

text \<open>
  C4. For every summary, whatever its characters and however the platform lower-cases
  them, the slug holds only lower-case letters of ASCII, digits and hyphens, no two hyphens
  stand side by side, no hyphen stands first or last, and the slug has at most 60 code
  units. With the lower-casing of the language, \<^verbatim>\<open>slugify("PostgreSQL")\<close> is
  \<^verbatim>\<open>"postgresql"\<close>, \<^verbatim>\<open>slugify("foo   ---   bar")\<close> is \<^verbatim>\<open>"foo-bar"\<close>, \<^verbatim>\<open>slugify("!@#$%^&*()")\<close>
  is empty, and so is the slug of every summary with no letter or digit: none of ASCII, no
  Kelvin sign and no capital I with dot above, the two letters outside ASCII whose lower
  case is in \<^verbatim>\<open>[a-z0-9]\<close>.
\<close>

theorem slugify_shape:
  "set (slugify P s) \<subseteq> {c. is_alnum c} \<union> {hyphen} \<and>
   no_adjacent_hyphens (slugify P s) \<and>
   (\<forall>r. slugify P s \<noteq> hyphen # r) \<and>
   (\<forall>r. slugify P s \<noteq> r @ [hyphen]) \<and>
   length (slugify P s) \<le> 60 \<and>
   (lowers_ascii (String_toLowerCase P) \<longrightarrow>
      slugify P (js ''PostgreSQL'') = js ''postgresql'' \<and>
      slugify P (js ''foo   ---   bar'') = js ''foo-bar'' \<and>
      slugify P (js ''!@#$%^&*()'') = []) \<and>
   (lowers_letters_only (String_toLowerCase P) \<longrightarrow>
      list_all (\<lambda>n. \<not> letter_or_digit n) s \<longrightarrow> slugify P s = [])"
proof -
  have a1: "list_all (\<lambda>n. n < 128) (js ''PostgreSQL'')" by (simp add: text_defs long_summary_def)
  have a2: "list_all (\<lambda>n. n < 128) (js ''foo   ---   bar'')" by (simp add: text_defs long_summary_def)
  have a3: "list_all (\<lambda>n. n < 128) (js ''!@#$%^&*()'')" by (simp add: text_defs long_summary_def)
  have e1: "strip_trailing_hyphen (take 60 (strip_edge_hyphens (replace_runs
              (map ascii_lower (js ''PostgreSQL''))))) = js ''postgresql''" by (simp add: text_defs long_summary_def)
  have e2: "strip_trailing_hyphen (take 60 (strip_edge_hyphens (replace_runs
              (map ascii_lower (js ''foo   ---   bar''))))) = js ''foo-bar''" by (simp add: text_defs long_summary_def)
  have e3: "strip_trailing_hyphen (take 60 (strip_edge_hyphens (replace_runs
              (map ascii_lower (js ''!@#$%^&*()''))))) = []" by (simp add: text_defs long_summary_def)
  have ex: "lowers_ascii (String_toLowerCase P) \<Longrightarrow>
              slugify P (js ''PostgreSQL'') = js ''postgresql'' \<and>
              slugify P (js ''foo   ---   bar'') = js ''foo-bar'' \<and>
              slugify P (js ''!@#$%^&*()'') = []"
    using slugify_ascii(1)[OF _ a1] slugify_ascii(1)[OF _ a2] slugify_ascii(1)[OF _ a3] e1 e2 e3
    by simp
  show ?thesis
    using slugify_chars[of P s] slugify_no_adjacent[of P s] slugify_no_leading_hyphen[of P s]
      slugify_no_trailing_hyphen[of P s] slugify_length[of P s] slugify_symbols_only[of P s] ex
    by blast
qed

theorem slugify_shape_witness:
  "slugify example_platform (js ''PostgreSQL'') = js ''postgresql'' \<and>
   slugify example_platform (js ''foo   ---   bar'') = js ''foo-bar'' \<and>
   slugify example_platform (js ''!@#$%^&*()'') = [] \<and>
   slugify example_platform japanese_summary = [] \<and>
   slugify example_platform kelvin_summary = js ''k'' \<and>
   length (slugify example_platform long_summary) \<le> 60"
proof -
  have other: "list_all (\<lambda>n. \<not> letter_or_digit n) japanese_summary"
    by (simp add: japanese_summary_def letter_or_digit_def ascii_alphanumeric_def)
  have kelvin: "slugify example_platform kelvin_summary = js ''k''"
    by (simp add: slugify_def example_platform_def example_toLowerCase_def
        example_lower_unit_def kelvin_summary_def text_defs)
  from slugify_shape[of example_platform japanese_summary] example_lowers_ascii
    example_lowers_letters_only other
  have "slugify example_platform (js ''PostgreSQL'') = js ''postgresql'' \<and>
        slugify example_platform (js ''foo   ---   bar'') = js ''foo-bar'' \<and>
        slugify example_platform (js ''!@#$%^&*()'') = [] \<and>
        slugify example_platform japanese_summary = []"
    by blast
  moreover from slugify_shape[of example_platform long_summary]
  have "length (slugify example_platform long_summary) \<le> 60" by blast
  ultimately show ?thesis using kelvin by simp
qed

section \<open>The path in the confirmation of a recorded decision\<close>

lemma slugify_of_display: "slugify P s = strip_trailing_hyphen (slugifyForDisplay P s)"
  by (simp add: slugify_def slugifyForDisplay_def)

text \<open>
  C6. The confirmation of \<^verbatim>\<open>record_decision\<close> names the file by \<^verbatim>\<open>slugifyForDisplay\<close>,
  the store writes it under \<^verbatim>\<open>slugify\<close>. The two differ on a summary whose slug is cut
  at 60 characters right behind a hyphen: the display helper lacks the last step. The
  summary is written in ASCII, which every platform lower-cases in the same way.
\<close>

theorem display_slug_differs:
  assumes "lowers_ascii (String_toLowerCase P)"
  shows "slugify P long_summary
           = js ''use-postgresql-for-persistence-and-route-each-query-through'' \<and>
         slugifyForDisplay P long_summary
           = js ''use-postgresql-for-persistence-and-route-each-query-through-''"
proof -
  have a: "list_all (\<lambda>n. n < 128) long_summary" by (simp add: text_defs long_summary_def)
  have e1: "strip_trailing_hyphen (take 60 (strip_edge_hyphens (replace_runs
              (map ascii_lower long_summary))))
            = js ''use-postgresql-for-persistence-and-route-each-query-through''" by (simp add: text_defs long_summary_def)
  have e2: "take 60 (strip_edge_hyphens (replace_runs (map ascii_lower long_summary)))
            = js ''use-postgresql-for-persistence-and-route-each-query-through-''" by (simp add: text_defs long_summary_def)
  show ?thesis
    using slugify_ascii[OF assms a] e1 e2 by simp
qed

theorem display_slug_differs_witness:
  "slugify example_platform long_summary
     = js ''use-postgresql-for-persistence-and-route-each-query-through'' \<and>
   slugifyForDisplay example_platform long_summary
     = js ''use-postgresql-for-persistence-and-route-each-query-through-'' \<and>
   slugifyForDisplay example_platform long_summary \<noteq> slugify example_platform long_summary"
proof -
  have "js ''use-postgresql-for-persistence-and-route-each-query-through-''
          \<noteq> js ''use-postgresql-for-persistence-and-route-each-query-through''"
    by (simp add: js_def)
  with display_slug_differs[OF example_lowers_ascii] show ?thesis by simp
qed

section \<open>Relative age\<close>

lemma hours_lt_24: "((m::int) div 60 < 24) = (m < 1440)"
  by linarith

lemma days_lt_7: "(((m::int) div 60) div 24 < 7) = (m < 10080)"
  by linarith

lemma weeks_lt_4: "((((m::int) div 60) div 24) div 7 < 4) = (m < 40320)"
  by linarith

text \<open>
  C7. For every elapsed time, the text of \<^verbatim>\<open>getRelativeTime\<close> is the one the thresholds
  on the elapsed minutes give: under 1 "just now", under 60 the minutes, under 1440 the
  hours, under 10080 the days, under 40320 the weeks, and the days divided by 30 above.
\<close>

theorem relative_age_thresholds:
  "getRelativeTime diff = relative_age_spec (diff div 60000)"
  by (simp only: getRelativeTime_def relative_age_spec_def Let_def hours_lt_24 days_lt_7 weeks_lt_4)

theorem relative_age_thresholds_witness:
  "getRelativeTime 5400000 = js ''1h ago'' \<and> getRelativeTime 2419200000 = js ''0mo ago''"
proof -
  have "relative_age_spec (5400000 div 60000) = js ''1h ago''"
    by (simp add: relative_age_spec_def Number_toString_def digits.simps js_def)
  moreover have "relative_age_spec (2419200000 div 60000) = js ''0mo ago''"
    by (simp add: relative_age_spec_def Number_toString_def digits.simps js_def)
  ultimately show ?thesis
    using relative_age_thresholds[of 5400000] relative_age_thresholds[of 2419200000] by simp
qed

section \<open>Parsing what was serialized\<close>

subsection \<open>White space at the ends\<close>

lemma is_space_LF: "is_space LF"
  by (simp add: is_space_def LF_def)

lemma trim_ends: "trim x = [] \<or> (\<not> is_space (hd (trim x)) \<and> \<not> is_space (last (trim x)))"
proof (cases "trim x = []")
  case True
  then show ?thesis by simp
next
  case False
  define y where "y = dropWhile is_space x"
  define w where "w = dropWhile is_space (rev y)"
  have t: "trim x = rev w" by (simp add: trim_def y_def w_def)
  with False have w: "w \<noteq> []" by simp
  then have y: "y \<noteq> []" by (auto simp: w_def)
  have "\<not> is_space (hd w)" using w hd_dropWhile[of is_space "rev y"] by (simp add: w_def)
  then have l: "\<not> is_space (last (rev w))" using w by (simp add: last_rev)
  have "last w = last (rev y)"
  proof -
    have "rev y = takeWhile is_space (rev y) @ w" by (simp add: w_def)
    then have "last (rev y) = last (takeWhile is_space (rev y) @ w)" by simp
    also have "\<dots> = last w" using w by simp
    finally show ?thesis by simp
  qed
  also have "\<dots> = hd y" using y by (simp add: last_rev)
  finally have "hd (rev w) = hd y" using w by (simp add: hd_rev)
  moreover have "\<not> is_space (hd y)" using y hd_dropWhile[of is_space x] by (simp add: y_def)
  ultimately show ?thesis using l t by simp
qed

lemma trim_id:
  assumes "t \<noteq> []" and "\<not> is_space (hd t)" and "\<not> is_space (last t)"
  shows "trim t = t"
proof -
  from assms obtain c cs where t: "t = c # cs" and c: "\<not> is_space c" by (cases t) auto
  have "dropWhile is_space t = t" using t c by simp
  moreover have "dropWhile is_space (rev t) = rev t"
    using assms by (cases "rev t") (auto simp: last_rev hd_rev[symmetric] dest: arg_cong[where f=hd])
  ultimately show ?thesis by (simp add: trim_def)
qed

lemma trim_fixed: "trim t = t \<Longrightarrow> t \<noteq> [] \<Longrightarrow> \<not> is_space (hd t) \<and> \<not> is_space (last t)"
  using trim_ends[of t] by simp

lemma trim_idem: "trim (trim x) = trim x"
proof (cases "trim x = []")
  case True
  have "trim [] = []" by (simp add: trim_def)
  with True show ?thesis by simp
next
  case False
  with trim_ends[of x] show ?thesis by (intro trim_id) auto
qed

lemma length_trim: "length (trim x) \<le> length x"
proof -
  have "length (dropWhile is_space (rev (dropWhile is_space x))) \<le> length (rev (dropWhile is_space x))"
    by (rule length_dropWhile_le)
  also have "\<dots> \<le> length x" by (simp add: length_dropWhile_le)
  finally show ?thesis by (simp add: trim_def)
qed

lemma trim_append_LF:
  assumes "t \<noteq> []" and "\<not> is_space (last t)"
  shows "trim (t @ [LF]) = trim t"
proof -
  have "last t \<in> set t" using assms(1) by simp
  with assms(2) have "dropWhile is_space (t @ [LF]) = dropWhile is_space t @ [LF]"
    by (meson dropWhile_append1)
  then show ?thesis by (simp add: trim_def is_space_LF)
qed

lemma trim_not_empty:
  assumes "t \<noteq> []" and "\<not> is_space (last t)"
  shows "trim t \<noteq> []"
proof
  assume e: "trim t = []"
  have m: "last t \<in> set t" using assms(1) by simp
  then have "dropWhile is_space t \<noteq> []" using assms(2) by (auto simp: dropWhile_eq_Nil_conv)
  moreover have "last (dropWhile is_space t) = last t"
    using \<open>dropWhile is_space t \<noteq> []\<close> by (metis last_appendR takeWhile_dropWhile_id)
  ultimately have "hd (rev (dropWhile is_space t)) = last t" "rev (dropWhile is_space t) \<noteq> []"
    by (simp_all add: hd_rev)
  with assms(2) have "dropWhile is_space (rev (dropWhile is_space t)) \<noteq> []"
    by (cases "rev (dropWhile is_space t)") auto
  with e show False by (simp add: trim_def)
qed

lemma trim_keeps_prefix:
  assumes "h \<noteq> []" and "\<not> is_space (hd h)" and "\<not> is_space (last h)"
  shows "\<exists>y'. trim (h @ y) = h @ y'"
proof -
  from assms obtain c cs where h: "h = c # cs" and c: "\<not> is_space c" by (cases h) auto
  have d: "dropWhile is_space (h @ y) = h @ y" using h c by simp
  have r: "dropWhile is_space (rev h) = rev h"
    using assms by (cases "rev h") (auto simp: last_rev hd_rev[symmetric] dest: arg_cong[where f=hd])
  have "\<exists>z. dropWhile is_space (rev y @ rev h) = z @ rev h"
  proof (cases "\<forall>x\<in>set (rev y). is_space x")
    case True
    then have "dropWhile is_space (rev y @ rev h) = dropWhile is_space (rev h)"
      by (meson dropWhile_append2)
    with r show ?thesis by (metis append_Nil)
  next
    case False
    then obtain x where "x \<in> set (rev y)" "\<not> is_space x" by blast
    then have "dropWhile is_space (rev y @ rev h) = dropWhile is_space (rev y) @ rev h"
      by (meson dropWhile_append1)
    then show ?thesis by blast
  qed
  then obtain z where "dropWhile is_space (rev y @ rev h) = z @ rev h" by blast
  with d have "trim (h @ y) = h @ rev z" by (simp add: trim_def)
  then show ?thesis by blast
qed

subsection \<open>The group behind a heading\<close>

lemma js_append: "js (a @ b) = js a @ js b"
  by (simp add: js_def)

lemma startsWith_append_LF:
  assumes "LF \<notin> set h" and "h \<noteq> []"
  shows "startsWith (s @ LF # r) h = startsWith s h"
proof (cases "length h \<le> length s")
  case True
  then show ?thesis by (simp add: startsWith_def)
next
  case False
  then have l: "length s < length h" by simp
  have "\<not> startsWith s h" using l by (auto simp: startsWith_def dest: arg_cong[where f=length])
  moreover have "\<not> startsWith (s @ LF # r) h"
  proof
    assume "startsWith (s @ LF # r) h"
    then have "h ! length s = take (length h) (s @ LF # r) ! length s" by (simp add: startsWith_def)
    also have "\<dots> = (s @ LF # r) ! length s" using l by (rule nth_take)
    also have "\<dots> = LF" by (rule nth_append_length)
    finally show False using assms(1) l by (metis nth_mem)
  qed
  ultimately show ?thesis by simp
qed

lemma contains_drop: "i < length t \<Longrightarrow> startsWith (drop i t) p \<Longrightarrow> contains t p"
proof (induction t arbitrary: i)
  case Nil
  then show ?case by simp
next
  case (Cons c cs)
  then show ?case by (cases i) auto
qed

lemma contains_suffix: "contains u p \<Longrightarrow> contains (pre @ u) p"
proof (induction pre)
  case Nil
  then show ?case by simp
next
  case (Cons a pre)
  then show ?case by simp
qed

lemma startsWith_append: "length p \<le> length s \<Longrightarrow> startsWith (s @ r) p = startsWith s p"
  by (simp add: startsWith_def)

lemma startsWith_length: "startsWith s p \<Longrightarrow> length p \<le> length s"
  by (auto simp: startsWith_def dest: arg_cong[where f=length])

lemma lazy_capture_append:
  "(\<And>i. i < length t \<Longrightarrow> \<not> startsWith (drop i t @ rest) (LF # js ''## '') \<and>
        \<not> list_all (\<lambda>x. x = LF) (drop i t @ rest)) \<Longrightarrow>
   lazy_capture (t @ rest) = t @ lazy_capture rest"
proof (induction t)
  case Nil
  show ?case by simp
next
  case (Cons c cs)
  from Cons.prems[of 0] have head: "\<not> startsWith (c # cs @ rest) (LF # js ''## '')"
     "\<not> list_all (\<lambda>x. x = LF) (c # cs @ rest)" by simp_all
  have "lazy_capture (cs @ rest) = cs @ lazy_capture rest"
  proof (rule Cons.IH)
    fix i assume "i < length cs"
    then show "\<not> startsWith (drop i cs @ rest) (LF # js ''## '') \<and>
        \<not> list_all (\<lambda>x. x = LF) (drop i cs @ rest)"
      using Cons.prems[of "Suc i"] by simp
  qed
  with head show ?case by simp
qed

lemma break_straddle:
  assumes "s \<noteq> []" and "\<not> startsWith s (LF # js ''## '')"
  shows "\<not> startsWith (s @ LF # r) (LF # js ''## '')"
proof
  assume h: "startsWith (s @ LF # r) (LF # js ''## '')"
  have len: "length (LF # js ''## '') = 4" by (simp add: js_def)
  show False
  proof (cases "4 \<le> length s")
    case True
    with h len have "startsWith s (LF # js ''## '')" by (metis startsWith_append)
    with assms show False by simp
  next
    case False
    then have l: "length s < length (LF # js ''## '')" using len by simp
    from h have "(LF # js ''## '') ! length s
                   = take (length (LF # js ''## '')) (s @ LF # r) ! length s"
      by (simp only: startsWith_def)
    also have "\<dots> = (s @ LF # r) ! length s" using l by (rule nth_take)
    also have "\<dots> = LF" by (rule nth_append_length)
    finally have e: "(LF # js ''## '') ! length s = LF" .
    from assms(1) l len obtain k where k: "length s = Suc k" "k < 3" by (cases "length s") auto
    have "js ''## '' ! k \<noteq> LF"
      using k(2) by (auto simp: js_def LF_def less_Suc_eq numeral_3_eq_3)
    with e k(1) show False by simp
  qed
qed

lemma no_break:
  assumes "\<not> contains t (LF # js ''## '')" and "i < length t"
  shows "\<not> startsWith (drop i t @ LF # r) (LF # js ''## '')"
proof (rule break_straddle)
  show "drop i t \<noteq> []" using assms(2) by simp
  show "\<not> startsWith (drop i t) (LF # js ''## '')" using assms contains_drop by blast
qed

lemma not_all_LF:
  assumes "t \<noteq> []" and "\<not> is_space (last t)" and "i < length t"
  shows "\<not> list_all (\<lambda>x. x = LF) (drop i t @ r)"
proof -
  from assms(3) have ne: "drop i t \<noteq> []" by simp
  have "last (drop i t) \<in> set (drop i t)" using ne by (rule last_in_set)
  moreover have "last (drop i t) = last t" using assms(3) by simp
  moreover have "last t \<noteq> LF" using assms(2) is_space_LF by auto
  ultimately have "\<exists>x\<in>set (drop i t). x \<noteq> LF" by metis
  then show ?thesis by (auto simp: list_all_iff)
qed

lemma capture_to_end:
  assumes "t \<noteq> []" and "\<not> is_space (last t)" and "\<not> contains t (LF # js ''## '')"
  shows "lazy_capture (t @ [LF]) = t"
proof -
  have "lazy_capture (t @ [LF]) = t @ lazy_capture [LF]"
  proof (rule lazy_capture_append)
    fix i assume i: "i < length t"
    have "\<not> startsWith (drop i t @ LF # []) (LF # js ''## '')"
      using assms i by (intro no_break)
    moreover have "\<not> list_all (\<lambda>x. x = LF) (drop i t @ [LF])"
      using assms i by (intro not_all_LF)
    ultimately show "\<not> startsWith (drop i t @ [LF]) (LF # js ''## '') \<and>
        \<not> list_all (\<lambda>x. x = LF) (drop i t @ [LF])" by simp
  qed
  then show ?thesis by simp
qed

lemma capture_to_heading:
  assumes "t \<noteq> []" and "\<not> is_space (last t)" and "\<not> contains t (LF # js ''## '')"
  shows "lazy_capture (t @ LF # LF # js ''## '' @ r) = t @ [LF]"
proof -
  have "lazy_capture (t @ LF # LF # js ''## '' @ r) = t @ lazy_capture (LF # LF # js ''## '' @ r)"
  proof (rule lazy_capture_append)
    fix i assume i: "i < length t"
    have "\<not> startsWith (drop i t @ LF # LF # js ''## '' @ r) (LF # js ''## '')"
      using assms i by (intro no_break)
    moreover have "\<not> list_all (\<lambda>x. x = LF) (drop i t @ LF # LF # js ''## '' @ r)"
      using assms i by (intro not_all_LF)
    ultimately show "\<not> startsWith (drop i t @ LF # LF # js ''## '' @ r) (LF # js ''## '') \<and>
        \<not> list_all (\<lambda>x. x = LF) (drop i t @ LF # LF # js ''## '' @ r)" by simp
  qed
  moreover have "lazy_capture (LF # LF # js ''## '' @ r) = [LF]"
    by (simp add: startsWith_def LF_def js_def)
  ultimately show ?thesis by simp
qed

lemma length_lazy_capture: "length (lazy_capture x) \<le> length x"
  by (induction x) auto

lemma lazy_capture_cut:
  "contains t (LF # js ''## '') \<Longrightarrow> length (lazy_capture (t @ r)) < length t"
proof (induction t)
  case Nil
  then show ?case by simp
next
  case (Cons c cs)
  show ?case
  proof (cases "startsWith (c # cs) (LF # js ''## '')")
    case True
    then have "startsWith ((c # cs) @ r) (LF # js ''## '')"
      using startsWith_length[OF True] startsWith_append by blast
    then show ?thesis by simp
  next
    case False
    with Cons.prems have "contains cs (LF # js ''## '')" by simp
    with Cons.IH have "length (lazy_capture (cs @ r)) < length cs" by simp
    then show ?thesis by simp
  qed
qed

subsection \<open>The white space behind a heading\<close>

lemma run_append:
  "takeWhile is_space (b @ r)
     = (if list_all is_space b then b @ takeWhile is_space r else takeWhile is_space b)"
  by (induction b) auto

lemma after_heading_status:
  "(after_heading (b @ LF # r) = None)
     = (\<not> list_all is_space b \<and> LF \<notin> set (takeWhile is_space b))"
  by (auto simp: after_heading_def run_append is_space_LF Let_def)

lemma after_heading_LF: "\<exists>g. after_heading (LF # x) = Some g"
  by (simp add: after_heading_def is_space_LF Let_def)

lemma after_heading_blank_line:
  assumes "t \<noteq> []" and "\<not> is_space (hd t)"
  shows "after_heading (LF # LF # t @ r) = Some (lazy_capture (t @ r))"
proof -
  from assms have "takeWhile is_space (t @ r) = []" by (cases t) simp_all
  then have "takeWhile is_space (LF # LF # t @ r) = [LF, LF]"
    by (simp add: is_space_LF)
  then show ?thesis by (simp add: after_heading_def)
qed

lemma after_heading_inside:
  assumes "b \<noteq> []" and "\<not> is_space (last b)" and "LF \<in> set (takeWhile is_space b)"
  shows "\<exists>pre u. b = pre @ u \<and> u \<noteq> [] \<and> last u = last b \<and>
           (\<forall>r. after_heading (b @ r) = Some (lazy_capture (u @ r)))"
proof -
  define run where "run = takeWhile is_space b"
  define rest where "rest = dropWhile is_space b"
  define suf where "suf = rev (takeWhile (\<lambda>c. c \<noteq> LF) (rev run))"
  define pre where "pre = rev (dropWhile (\<lambda>c. c \<noteq> LF) (rev run))"
  have b: "b = run @ rest" by (simp add: run_def rest_def)
  have m: "last b \<in> set b" using assms(1) by simp
  then have rest: "rest \<noteq> []" using assms(2) by (auto simp: rest_def dropWhile_eq_Nil_conv)
  have notall: "\<not> list_all is_space b" using m assms(2) by (auto simp: list_all_iff)
  have run: "run = pre @ suf"
    unfolding pre_def suf_def by (metis rev_append rev_rev_ident takeWhile_dropWhile_id)
  have u: "b = pre @ (suf @ rest)" using b run by simp
  have l: "last (suf @ rest) = last b" using u rest by (metis append_is_Nil_conv last_appendR)
  have "after_heading (b @ r) = Some (lazy_capture ((suf @ rest) @ r))" for r
  proof -
    have t: "takeWhile is_space (b @ r) = run" using notall by (simp add: run_append run_def)
    have "b @ r = run @ (rest @ r)" using b by simp
    then have d: "drop (length run) (b @ r) = rest @ r" by simp
    show ?thesis
      unfolding after_heading_def t Let_def d using assms(3) by (simp add: run_def suf_def)
  qed
  with u l rest show ?thesis by blast
qed

subsection \<open>A text under its own heading\<close>

lemma own_section:
  assumes "q \<noteq> []" and "tail = [LF] \<or> tail = LF # LF # js ''## '' @ r"
  shows "\<exists>g. after_heading (LF # LF # q @ tail) = Some g \<and> (trim g = q) = written_whole q"
proof -
  obtain g where g: "after_heading (LF # LF # q @ tail) = Some g"
    using after_heading_LF by blast
  have "(trim g = q) = written_whole q"
  proof
    assume e: "trim g = q"
    then have tq: "trim q = q" using trim_idem[of g] by simp
    with assms(1) have ends: "\<not> is_space (hd q)" "\<not> is_space (last q)"
      using trim_fixed by blast+
    with assms(1) g have gc: "g = lazy_capture (q @ tail)"
      using after_heading_blank_line[of q tail] by simp
    have "\<not> contains q (LF # js ''## '')"
    proof
      assume "contains q (LF # js ''## '')"
      then have "length g < length q" using lazy_capture_cut gc by simp
      moreover have "length (trim g) \<le> length g" by (rule length_trim)
      ultimately show False using e by simp
    qed
    with tq assms(1) show "written_whole q" by (simp add: written_whole_def)
  next
    assume w: "written_whole q"
    then have tq: "trim q = q" and nc: "\<not> contains q (LF # js ''## '')"
      by (simp_all add: written_whole_def)
    with assms(1) have ends: "\<not> is_space (hd q)" "\<not> is_space (last q)"
      using trim_fixed by blast+
    with assms(1) g have gc: "g = lazy_capture (q @ tail)"
      using after_heading_blank_line[of q tail] by simp
    from assms(2) show "trim g = q"
    proof
      assume "tail = [LF]"
      with gc have "g = q" using capture_to_end[OF assms(1) ends(2) nc] by simp
      with tq show ?thesis by simp
    next
      assume "tail = LF # LF # js ''## '' @ r"
      with gc have "g = q @ [LF]" using capture_to_heading[OF assms(1) ends(2) nc] by simp
      with tq show ?thesis using trim_append_LF[OF assms(1) ends(2)] by simp
    qed
  qed
  with g show ?thesis by blast
qed

lemma match_own_context:
  "match_section (js ''## Context'') (LF # js ''## Context'' @ LF # x) = after_heading (LF # x)"
proof -
  obtain g where "after_heading (LF # x) = Some g" using after_heading_LF by blast
  then show ?thesis by (simp add: startsWith_def js_def LF_def)
qed

lemma match_own_consequences:
  "match_section (js ''## Consequences'') (LF # js ''## Consequences'' @ LF # x)
     = after_heading (LF # x)"
proof -
  obtain g where "after_heading (LF # x) = Some g" using after_heading_LF by blast
  then show ?thesis by (simp add: startsWith_def js_def LF_def)
qed

lemma skip_context_heading:
  "match_section (js ''## Consequences'') (LF # js ''## Context'' @ LF # LF # t)
     = match_section (js ''## Consequences'') t"
  by (simp add: startsWith_def js_def LF_def)

lemma skip_consequences_heading:
  "match_section (js ''## Context'') (LF # js ''## Consequences'' @ LF # LF # t)
     = match_section (js ''## Context'') t"
  by (simp add: startsWith_def js_def LF_def)

lemma match_lone_LF:
  "match_section (js ''## Context'') [LF] = None"
  "match_section (js ''## Consequences'') [LF] = None"
  by (simp_all add: startsWith_def js_def LF_def)

subsection \<open>The heading of the consequences inside the context\<close>

lemma heading_ends:
  "js ''## Consequences'' \<noteq> []" "\<not> is_space (hd (js ''## Consequences''))"
  "\<not> is_space (last (js ''## Consequences''))" "LF \<notin> set (js ''## Consequences'')"
  "js ''## Consequences'' = js ''## '' @ js ''Consequences''"
  by (simp_all add: js_def is_space_def LF_def)

lemma heading_at_end:
  assumes "q \<noteq> []"
  shows "(trim (lazy_capture (js ''## Consequences'' @ LF # LF # q @ [LF])) = q)
           = (q = js ''## Consequences'')"
proof
  assume "q = js ''## Consequences''"
  then show "trim (lazy_capture (js ''## Consequences'' @ LF # LF # q @ [LF])) = q"
    by (simp add: text_defs)
next
  assume e: "trim (lazy_capture (js ''## Consequences'' @ LF # LF # q @ [LF])) = q"
  have lc: "lazy_capture (js ''## Consequences'' @ x) = js ''## Consequences'' @ lazy_capture x" for x
    by (simp add: js_def startsWith_def LF_def)
  obtain y' where "trim (js ''## Consequences'' @ lazy_capture (LF # LF # q @ [LF]))
                     = js ''## Consequences'' @ y'"
    using trim_keeps_prefix[OF heading_ends(1,2,3)] by blast
  with e lc have q: "q = js ''## Consequences'' @ y'" by simp
  then have sw: "startsWith (LF # q @ [LF]) (LF # js ''## '')"
    by (simp add: startsWith_def js_def)
  have nl: "\<not> list_all (\<lambda>x. x = LF) (LF # LF # q @ [LF])"
    using q by (simp add: js_def LF_def)
  have "\<not> startsWith (LF # LF # q @ [LF]) (LF # js ''## '')"
    by (simp add: startsWith_def js_def LF_def)
  with nl have "lazy_capture (LF # LF # q @ [LF]) = LF # lazy_capture (LF # q @ [LF])"
    by simp
  also have "lazy_capture (LF # q @ [LF]) = []" using sw by simp
  finally have "lazy_capture (LF # LF # q @ [LF]) = [LF]" .
  with e lc have "trim (js ''## Consequences'' @ [LF]) = q" by simp
  moreover have "trim (js ''## Consequences'' @ [LF]) = js ''## Consequences''"
    by (simp add: text_defs)
  ultimately show "q = js ''## Consequences''" by simp
qed

lemma search_inside:
  assumes "q \<noteq> []"
  shows "a = [] \<or> \<not> is_space (last a) \<Longrightarrow> \<not> contains a (LF # js ''## '') \<Longrightarrow>
    (map_option trim (match_section (js ''## Consequences'')
        (a @ LF # LF # js ''## Consequences'' @ LF # LF # q @ [LF])) = Some q)
    = (case found (js ''## Consequences'') a of
         None \<Rightarrow> written_whole q
       | Some x \<Rightarrow> q = (if x = [] then js ''## Consequences'' else x))"
proof (induction a)
  case Nil
  obtain g where g: "after_heading (LF # LF # q @ [LF]) = Some g"
      "(trim g = q) = written_whole q"
    using own_section[OF assms, of "[LF]"] by blast
  have "match_section (js ''## Consequences'') (LF # js ''## Consequences'' @ LF # LF # q @ [LF])
          = Some g"
    using g(1) by (simp only: match_own_consequences)
  then have "match_section (js ''## Consequences'')
               ([] @ LF # LF # js ''## Consequences'' @ LF # LF # q @ [LF]) = Some g"
    by (simp add: startsWith_def js_def LF_def)
  moreover have "found (js ''## Consequences'') [] = None"
    unfolding found_def append_Nil match_lone_LF by simp
  ultimately show ?case using g(2) by simp
next
  case (Cons c cs)
  let ?H = "js ''## Consequences''"
  let ?T = "LF # LF # ?H @ LF # LF # q @ [LF]"
  have tail: "cs = [] \<or> \<not> is_space (last cs)" using Cons.prems(1) by (cases cs) auto
  have nc: "\<not> contains cs (LF # js ''## '')" using Cons.prems(2) by simp
  note IH = Cons.IH[OF tail nc]
  have sw1: "startsWith ((c # cs) @ ?T) ?H = startsWith (c # cs) ?H"
    by (rule startsWith_append_LF[OF heading_ends(4) heading_ends(1)])
  have sw2: "startsWith ((c # cs) @ [LF]) ?H = startsWith (c # cs) ?H"
    by (rule startsWith_append_LF[OF heading_ends(4) heading_ends(1)])
  show ?case
  proof (cases "startsWith (c # cs) ?H")
    case False
    then have "match_section ?H ((c # cs) @ ?T) = match_section ?H (cs @ ?T)"
      using sw1 by simp
    moreover have "found ?H (c # cs) = found ?H cs" using sw2 False by (simp add: found_def)
    ultimately show ?thesis using IH by simp
  next
    case True
    define b where "b = drop (length ?H) (c # cs)"
    have len: "length ?H \<le> length (c # cs)" by (rule startsWith_length[OF True])
    have d1: "drop (length ?H) ((c # cs) @ ?T) = b @ ?T" using len by (simp only: b_def drop_append diff_is_0_eq' drop_0)
    have d2: "drop (length ?H) ((c # cs) @ [LF]) = b @ [LF]" using len by (simp only: b_def drop_append diff_is_0_eq' drop_0)
    have m1: "match_section ?H ((c # cs) @ ?T)
                = (case after_heading (b @ ?T) of Some g \<Rightarrow> Some g
                   | None \<Rightarrow> match_section ?H (cs @ ?T))"
      using True sw1 d1 by simp
    have m2: "match_section ?H ((c # cs) @ [LF])
                = (case after_heading (b @ [LF]) of Some g \<Rightarrow> Some g
                   | None \<Rightarrow> match_section ?H (cs @ [LF]))"
      using True sw2 d2 by simp
    show ?thesis
    proof (cases "b = []")
      case True
      have "after_heading (LF # LF # ?H @ LF # LF # q @ [LF])
              = Some (lazy_capture (?H @ LF # LF # q @ [LF]))"
        by (rule after_heading_blank_line[OF heading_ends(1,2)])
      with m1 True have l: "match_section ?H ((c # cs) @ ?T)
                              = Some (lazy_capture (?H @ LF # LF # q @ [LF]))" by simp
      have "after_heading [LF] = Some []" by (simp add: after_heading_def is_space_LF)
      with m2 True have "found ?H (c # cs) = Some []" by (simp add: found_def trim_def)
      with l show ?thesis using heading_at_end[OF assms] by simp
    next
      case False
      have "last b = last (c # cs)" using False by (simp add: b_def)
      with Cons.prems(1) have lb: "\<not> is_space (last b)" by simp
      have "last b \<in> set b" using False by simp
      with lb have notall: "\<not> list_all is_space b" by (auto simp: list_all_iff)
      show ?thesis
      proof (cases "LF \<in> set (takeWhile is_space b)")
        case False
        with notall have "after_heading (b @ LF # r) = None" for r
          by (simp add: after_heading_status)
        then have "after_heading (b @ ?T) = None" "after_heading (b @ [LF]) = None" by blast+
        with m1 m2 have "match_section ?H ((c # cs) @ ?T) = match_section ?H (cs @ ?T)"
          "found ?H (c # cs) = found ?H cs" by (simp_all add: found_def)
        then show ?thesis using IH by simp
      next
        case True
        with False lb obtain pre u where u: "b = pre @ u" "u \<noteq> []" "last u = last b"
            "\<And>r. after_heading (b @ r) = Some (lazy_capture (u @ r))"
          using after_heading_inside[of b] by blast
        have "c # cs = take (length ?H) (c # cs) @ b" by (simp add: b_def)
        then have "c # cs = (take (length ?H) (c # cs) @ pre) @ u" using u(1) by simp
        then have ncu: "\<not> contains u (LF # js ''## '')"
          using Cons.prems(2) contains_suffix by metis
        have lu: "\<not> is_space (last u)" using lb u(3) by simp
        have "lazy_capture (u @ LF # LF # js ''## '' @ js ''Consequences'' @ LF # LF # q @ [LF])
                = u @ [LF]"
          by (rule capture_to_heading[OF u(2) lu ncu])
        then have "lazy_capture (u @ ?T) = u @ [LF]" by (simp add: heading_ends(5))
        with m1 u(4) have l: "match_section ?H ((c # cs) @ ?T) = Some (u @ [LF])" by simp
        have "lazy_capture (u @ [LF]) = u" by (rule capture_to_end[OF u(2) lu ncu])
        with m2 u(4) have f: "found ?H (c # cs) = Some (trim u)" by (simp add: found_def)
        have "trim (u @ [LF]) = trim u" by (rule trim_append_LF[OF u(2) lu])
        moreover have "trim u \<noteq> []" by (rule trim_not_empty[OF u(2) lu])
        ultimately show ?thesis using l f by auto
      qed
    qed
  qed
qed

subsection \<open>The round trip\<close>

lemma parse_Document:
  "parseDecision cache (Document fm content)
     = (Inr (Full (DecisionFrontmatter.extend fm
          \<lparr>context' = map_option trim (match_section (js ''## Context'') content),
           consequences = map_option trim (match_section (js ''## Consequences'') content)\<rparr>)),
        cache)"
  by (simp add: parseDecision_def decision_object_def Let_def)

lemma extend_truncate_iff:
  "(DecisionFrontmatter.extend (DecisionFrontmatter.truncate d)
      \<lparr>context' = c, consequences = q\<rparr> = (d :: Decision))
     = (c = context' d \<and> q = consequences d)"
  by (cases d) (auto simp: DecisionFrontmatter.extend_def DecisionFrontmatter.truncate_def)

lemma parse_document_iff:
  "(parseDecision cache (Document (DecisionFrontmatter.truncate d) content) = (Inr (Full d), cache))
     = (map_option trim (match_section (js ''## Context'') content) = context' d \<and>
        map_option trim (match_section (js ''## Consequences'') content) = consequences d)"
  by (simp add: parse_Document extend_truncate_iff)

lemma roundtrip_both:
  assumes c: "context' d = Some c" "c \<noteq> []" and q: "consequences d = Some q" "q \<noteq> []"
  shows "(parseDecision cache (serializeDecision d) = (Inr (Full d), cache)) = roundtrips d"
proof -
  let ?H = "js ''## Consequences''"
  let ?B = "LF # js ''## Context'' @ LF # LF # c @ LF # LF # ?H @ LF # LF # q @ [LF]"
  have ser: "serializeDecision d = Document (DecisionFrontmatter.truncate d) ?B"
    using c q by (simp add: serializeDecision_def matter_stringify_def Let_def)
  obtain g where g: "after_heading (LF # LF # c @ LF # LF # js ''## '' @ js ''Consequences'' @ LF # LF # q @ [LF]) = Some g"
      "(trim g = c) = written_whole c"
    using own_section[OF c(2), of "LF # LF # js ''## '' @ js ''Consequences'' @ LF # LF # q @ [LF]"
        "js ''Consequences'' @ LF # LF # q @ [LF]"]
    by blast
  have "match_section (js ''## Context'') ?B = after_heading (LF # LF # c @ LF # LF # ?H @ LF # LF # q @ [LF])"
    by (rule match_own_context)
  with g(1) have A: "match_section (js ''## Context'') ?B = Some g"
    by (simp add: heading_ends(5))
  have B: "match_section ?H ?B = match_section ?H (c @ LF # LF # ?H @ LF # LF # q @ [LF])"
    by (rule skip_context_heading)
  have rt: "roundtrips d
        = (written_whole c \<and>
           (case found ?H c of None \<Rightarrow> written_whole q
            | Some x \<Rightarrow> q = (if x = [] then ?H else x)))"
    using c q by (simp add: roundtrips_def cong: option.case_cong)
  show ?thesis
  proof (cases "written_whole c")
    case True
    then have "\<not> is_space (last c)" "\<not> contains c (LF # js ''## '')"
      using trim_fixed[of c] by (simp_all add: written_whole_def)
    then have "(map_option trim (match_section ?H (c @ LF # LF # ?H @ LF # LF # q @ [LF])) = Some q)
        = (case found ?H c of None \<Rightarrow> written_whole q
           | Some x \<Rightarrow> q = (if x = [] then ?H else x))"
      using search_inside[OF q(2), of c] by blast
    with True g(2) show ?thesis
      unfolding ser parse_document_iff A B rt c q by simp
  next
    case False
    with g(2) show ?thesis
      unfolding ser parse_document_iff A B rt c q by simp
  qed
qed

lemma roundtrip_context_only:
  assumes c: "context' d = Some c" "c \<noteq> []" and q: "\<not> truthy (consequences d)"
  shows "(parseDecision cache (serializeDecision d) = (Inr (Full d), cache)) = roundtrips d"
proof -
  let ?H = "js ''## Consequences''"
  let ?B = "LF # js ''## Context'' @ LF # LF # c @ [LF]"
  have ser: "serializeDecision d = Document (DecisionFrontmatter.truncate d) ?B"
    using c q by (simp add: serializeDecision_def matter_stringify_def Let_def)
  obtain g where g: "after_heading (LF # LF # c @ [LF]) = Some g"
      "(trim g = c) = written_whole c"
    using own_section[OF c(2), of "[LF]"] by blast
  have "match_section (js ''## Context'') ?B = after_heading (LF # LF # c @ [LF])"
    by (rule match_own_context)
  with g(1) have A: "match_section (js ''## Context'') ?B = Some g" by simp
  have B: "match_section ?H ?B = match_section ?H (c @ [LF])"
    by (rule skip_context_heading)
  have rt: "roundtrips d = (written_whole c \<and> found ?H c = consequences d)"
    using c q by (simp add: roundtrips_def)
  show ?thesis
    unfolding ser parse_document_iff A B rt c using g(2) by (simp add: found_def)
qed

lemma roundtrip_consequences_only:
  assumes c: "\<not> truthy (context' d)" and q: "consequences d = Some q" "q \<noteq> []"
  shows "(parseDecision cache (serializeDecision d) = (Inr (Full d), cache)) = roundtrips d"
proof -
  let ?H = "js ''## Context''"
  let ?B = "LF # js ''## Consequences'' @ LF # LF # q @ [LF]"
  have ser: "serializeDecision d = Document (DecisionFrontmatter.truncate d) ?B"
    using c q by (simp add: serializeDecision_def matter_stringify_def Let_def)
  obtain g where g: "after_heading (LF # LF # q @ [LF]) = Some g"
      "(trim g = q) = written_whole q"
    using own_section[OF q(2), of "[LF]"] by blast
  have "match_section (js ''## Consequences'') ?B = after_heading (LF # LF # q @ [LF])"
    by (rule match_own_consequences)
  with g(1) have B: "match_section (js ''## Consequences'') ?B = Some g" by simp
  have A: "match_section ?H ?B = match_section ?H (q @ [LF])"
    by (rule skip_consequences_heading)
  have rt: "roundtrips d = (written_whole q \<and> found ?H q = context' d)"
    using c q by (simp add: roundtrips_def)
  show ?thesis
    unfolding ser parse_document_iff A B rt q using g(2) by (auto simp: found_def)
qed

lemma roundtrip_neither:
  assumes c: "\<not> truthy (context' d)" and q: "\<not> truthy (consequences d)"
  shows "(parseDecision cache (serializeDecision d) = (Inr (Full d), cache)) = roundtrips d"
proof -
  have ser: "serializeDecision d = Document (DecisionFrontmatter.truncate d) [LF]"
    using c q by (simp add: serializeDecision_def matter_stringify_def Let_def)
  have rt: "roundtrips d = (context' d = None \<and> consequences d = None)"
    using c q by (simp add: roundtrips_def)
  show ?thesis
    unfolding ser parse_document_iff rt match_lone_LF by auto
qed

lemma parse_serialize_iff:
  "(parseDecision cache (serializeDecision d) = (Inr (Full d), cache)) = roundtrips d"
proof (cases "truthy (context' d)")
  case True
  then obtain c where c: "context' d = Some c" "c \<noteq> []" by (cases "context' d") auto
  show ?thesis
  proof (cases "truthy (consequences d)")
    case True
    then obtain q where "consequences d = Some q" "q \<noteq> []" by (cases "consequences d") auto
    with c show ?thesis by (rule roundtrip_both)
  next
    case False
    with c show ?thesis by (rule roundtrip_context_only)
  qed
next
  case False
  note c = this
  show ?thesis
  proof (cases "truthy (consequences d)")
    case True
    then obtain q where "consequences d = Some q" "q \<noteq> []" by (cases "consequences d") auto
    with c show ?thesis by (rule roundtrip_consequences_only)
  next
    case False
    with c show ?thesis by (rule roundtrip_neither)
  qed
qed

lemmas example_defs = example_decision_def heading_decision_def padded_decision_def
  wide_padded_decision_def empty_context_decision_def heading_consequences_decision_def
  inline_heading_decision_def consequences_only_decision_def trailing_heading_decision_def
  trailing_context_decision_def empty_consequences_decision_def empty_both_decision_def
  midline_heading_decision_def repeated_decision_def echo_decision_def echo_empty_decision_def
  echo_context_decision_def unscoped_decision_def old_decision_def second_decision_def

lemmas roundtrips_defs = roundtrips_def written_whole_def found_def

text \<open>
  C1, as the code has it. For every decision and in every state of the front-matter library,
  parsing the serialized decision gives the decision back field for field, the state
  unchanged, exactly when the following holds. Every context and consequences text that is
  set and not empty has no white space at either end and no line feed followed by
  \<^verbatim>\<open>"## "\<close>; multi-paragraph text, text outside ASCII and text that names a heading
  within a line are such texts. Where the context is set and not empty and does not hold
  \<^verbatim>\<open>"## Consequences"\<close> with only white space up to the end of its line, the
  consequences are not the empty string. Where it does hold it, the consequences are what
  stands in the context behind the first such place, trimmed, and with nothing behind it
  they are the text \<^verbatim>\<open>"## Consequences"\<close> or the empty string. Where the context is unset
  or empty and the consequences are set and not empty, either the consequences do not hold
  \<^verbatim>\<open>"## Context"\<close> with only white space up to the end of its line and the context is
  unset, or the first such place is the end of the consequences and the context is the
  empty string. Where neither text is set and not empty, both are unset.
\<close>

theorem roundtrip_exactly:
  "(parseDecision cache (serializeDecision d) = (Inr (Full d), cache)) = roundtrips d"
  by (rule parse_serialize_iff)

theorem roundtrip_exactly_witness:
  "parseDecision {} (serializeDecision example_decision) = (Inr (Full example_decision), {}) \<and>
   parseDecision {} (serializeDecision midline_heading_decision)
     = (Inr (Full midline_heading_decision), {}) \<and>
   parseDecision {} (serializeDecision repeated_decision) = (Inr (Full repeated_decision), {}) \<and>
   parseDecision {} (serializeDecision echo_decision) = (Inr (Full echo_decision), {}) \<and>
   parseDecision {} (serializeDecision echo_empty_decision)
     = (Inr (Full echo_empty_decision), {}) \<and>
   parseDecision {} (serializeDecision echo_context_decision)
     = (Inr (Full echo_context_decision), {}) \<and>
   parseDecision {} (serializeDecision heading_decision) \<noteq> (Inr (Full heading_decision), {})"
proof -
  have "roundtrips example_decision"
    by (simp add: roundtrips_defs example_defs text_defs)
  moreover have "roundtrips midline_heading_decision"
    by (simp add: roundtrips_defs example_defs text_defs)
  moreover have "roundtrips repeated_decision"
    by (simp add: roundtrips_defs example_defs text_defs)
  moreover have "roundtrips echo_decision"
    by (simp add: roundtrips_defs example_defs text_defs)
  moreover have "roundtrips echo_empty_decision"
    by (simp add: roundtrips_defs example_defs text_defs)
  moreover have "roundtrips echo_context_decision"
    by (simp add: roundtrips_defs example_defs text_defs)
  moreover have "\<not> roundtrips heading_decision"
    by (simp add: roundtrips_defs example_defs text_defs)
  ultimately show ?thesis
    using roundtrip_exactly[of "{}" example_decision]
      roundtrip_exactly[of "{}" midline_heading_decision]
      roundtrip_exactly[of "{}" repeated_decision]
      roundtrip_exactly[of "{}" echo_decision]
      roundtrip_exactly[of "{}" echo_empty_decision]
      roundtrip_exactly[of "{}" echo_context_decision]
      roundtrip_exactly[of "{}" heading_decision]
    by blast
qed

text \<open>
  C1 as stated fails. A context with a heading of its own comes back cut at that heading,
  and so do consequences with one; a context with white space around it comes back trimmed,
  be it a space or the ideographic space; an empty context and empty consequences come back
  unset; where the context names the other section at the end of a line, the consequences
  come back as the rest of the context, and where it ends with that name, as the heading
  that follows with the consequences behind it; where consequences written alone name the
  other section at the end of a line, a context comes back that was not set, the empty
  string where they end with the name.
\<close>

theorem roundtrip_heading_counterexample:
  "fst (parseDecision {} (serializeDecision heading_decision))
     = Inr (Full (heading_decision\<lparr>context' := Some (js ''Overview'')\<rparr>)) \<and>
   fst (parseDecision {} (serializeDecision heading_decision)) \<noteq> Inr (Full heading_decision) \<and>
   fst (parseDecision {} (serializeDecision heading_consequences_decision))
     = Inr (Full (heading_consequences_decision
                    \<lparr>consequences := Some (js ''Migrations are needed.'')\<rparr>)) \<and>
   fst (parseDecision {} (serializeDecision padded_decision))
     = Inr (Full (padded_decision\<lparr>context' := Some (js ''Evaluating database options.'')\<rparr>)) \<and>
   fst (parseDecision {} (serializeDecision wide_padded_decision))
     = Inr (Full (wide_padded_decision\<lparr>context' := Some (js ''Evaluating database options.'')\<rparr>)) \<and>
   fst (parseDecision {} (serializeDecision empty_context_decision))
     = Inr (Full (empty_context_decision\<lparr>context' := None\<rparr>)) \<and>
   fst (parseDecision {} (serializeDecision empty_consequences_decision))
     = Inr (Full (empty_consequences_decision\<lparr>consequences := None\<rparr>)) \<and>
   fst (parseDecision {} (serializeDecision empty_both_decision))
     = Inr (Full (empty_both_decision\<lparr>context' := None, consequences := None\<rparr>)) \<and>
   fst (parseDecision {} (serializeDecision inline_heading_decision))
     = Inr (Full (inline_heading_decision\<lparr>consequences := Some (js ''below.'')\<rparr>)) \<and>
   fst (parseDecision {} (serializeDecision trailing_heading_decision))
     = Inr (Full (trailing_heading_decision
                    \<lparr>consequences := Some (js ''## Consequences'' @ [LF, LF]
                                              @ js ''All persistence goes through PostgreSQL.'')\<rparr>)) \<and>
   fst (parseDecision {} (serializeDecision consequences_only_decision))
     = Inr (Full (consequences_only_decision\<lparr>context' := Some (js ''before.'')\<rparr>)) \<and>
   fst (parseDecision {} (serializeDecision trailing_context_decision))
     = Inr (Full (trailing_context_decision\<lparr>context' := Some []\<rparr>))"
proof -
  have 1: "fst (parseDecision {} (serializeDecision heading_decision))
     = Inr (Full (heading_decision\<lparr>context' := Some (js ''Overview'')\<rparr>))"
    by (simp add: example_defs text_defs parser_defs)
  have 2: "fst (parseDecision {} (serializeDecision heading_decision)) \<noteq> Inr (Full heading_decision)"
    unfolding 1 by (simp add: example_defs text_defs)
  have 3: "fst (parseDecision {} (serializeDecision heading_consequences_decision))
     = Inr (Full (heading_consequences_decision
                    \<lparr>consequences := Some (js ''Migrations are needed.'')\<rparr>))"
    by (simp add: example_defs text_defs parser_defs)
  have 4: "fst (parseDecision {} (serializeDecision padded_decision))
     = Inr (Full (padded_decision\<lparr>context' := Some (js ''Evaluating database options.'')\<rparr>))"
    by (simp add: example_defs text_defs parser_defs)
  have 5: "fst (parseDecision {} (serializeDecision wide_padded_decision))
     = Inr (Full (wide_padded_decision\<lparr>context' := Some (js ''Evaluating database options.'')\<rparr>))"
    by (simp add: example_defs text_defs parser_defs)
  have 6: "fst (parseDecision {} (serializeDecision empty_context_decision))
     = Inr (Full (empty_context_decision\<lparr>context' := None\<rparr>))"
    by (simp add: example_defs text_defs parser_defs)
  have 7: "fst (parseDecision {} (serializeDecision empty_consequences_decision))
     = Inr (Full (empty_consequences_decision\<lparr>consequences := None\<rparr>))"
    by (simp add: example_defs text_defs parser_defs)
  have 8: "fst (parseDecision {} (serializeDecision empty_both_decision))
     = Inr (Full (empty_both_decision\<lparr>context' := None, consequences := None\<rparr>))"
    by (simp add: example_defs text_defs parser_defs)
  have 9: "fst (parseDecision {} (serializeDecision inline_heading_decision))
     = Inr (Full (inline_heading_decision\<lparr>consequences := Some (js ''below.'')\<rparr>))"
    by (simp add: example_defs text_defs parser_defs)
  have 10: "fst (parseDecision {} (serializeDecision trailing_heading_decision))
     = Inr (Full (trailing_heading_decision
                    \<lparr>consequences := Some (js ''## Consequences'' @ [LF, LF]
                                              @ js ''All persistence goes through PostgreSQL.'')\<rparr>))"
    by (simp add: example_defs text_defs parser_defs)
  have 11: "fst (parseDecision {} (serializeDecision consequences_only_decision))
     = Inr (Full (consequences_only_decision\<lparr>context' := Some (js ''before.'')\<rparr>))"
    by (simp add: example_defs text_defs parser_defs)
  have 12: "fst (parseDecision {} (serializeDecision trailing_context_decision))
     = Inr (Full (trailing_context_decision\<lparr>context' := Some []\<rparr>))"
    by (simp add: example_defs text_defs parser_defs)
  from 1 2 3 4 5 6 7 8 9 10 11 12 show ?thesis by blast
qed

section \<open>Reading a decision file\<close>

lemma decision_object_None:
  "decision_object None content
     = Fieldless (map_option trim (match_section (js ''## Context'') content))
                 (map_option trim (match_section (js ''## Consequences'') content))"
  by (simp add: decision_object_def Let_def)

lemma decision_object_Some:
  "decision_object (Some fm) content
     = Full (DecisionFrontmatter.extend fm
          \<lparr>context' = map_option trim (match_section (js ''## Context'') content),
           consequences = map_option trim (match_section (js ''## Consequences'') content)\<rparr>)"
  by (simp add: decision_object_def Let_def)


lemma parse_readable:
  assumes "parses cache text"
  shows "\<exists>p. parseDecision cache text = (Inr p, cache) \<and>
             (case p of Full d \<Rightarrow> decision_in text = Some d
              | Fieldless c q \<Rightarrow> decision_in text = None)"
proof (cases "text")
  case (Document fm content)
  then show ?thesis by (simp add: parseDecision_def decision_object_Some)
next
  case (NoFrontMatter content)
  with assms have "content \<notin> set Object_prototype_keys"
    by (auto simp: parses_def parseDecision_def split: if_splits)
  with NoFrontMatter show ?thesis by (simp add: parseDecision_def decision_object_None)
next
  case (BadFrontMatter whole)
  with assms have "whole \<in> cache" by (auto simp: parses_def parseDecision_def split: if_splits)
  with BadFrontMatter show ?thesis by (simp add: parseDecision_def decision_object_None)
qed

section \<open>Scanning the directories\<close>

lemma get_files_skip:
  "\<not> endsWith name (js ''.md'') \<Longrightarrow>
   get_files cache (xs @ (name, text) # ys) ident = get_files cache (xs @ ys) ident"
proof (induction xs arbitrary: cache)
  case Nil
  then show ?case by simp
next
  case (Cons a xs)
  obtain fname content where a: "a = (fname, content)" by (cases a)
  show ?case unfolding a using Cons
    by (simp split: prod.split sum.split parsed.split)
qed

lemma index_files_skip:
  "\<not> endsWith name (js ''.md'') \<Longrightarrow>
   index_files cache dir (xs @ (name, text) # ys) entries
     = index_files cache dir (xs @ ys) entries"
proof (induction xs arbitrary: cache entries)
  case Nil
  then show ?case by simp
next
  case (Cons a xs)
  obtain fname content where a: "a = (fname, content)" by (cases a)
  show ?case unfolding a using Cons
    by (simp split: prod.split sum.split)
qed

lemma list_files_skip:
  "\<not> endsWith name (js ''.md'') \<Longrightarrow>
   list_files P options cache (xs @ (name, text) # ys) results
     = list_files P options cache (xs @ ys) results"
proof (induction xs arbitrary: cache results)
  case Nil
  then show ?case by simp
next
  case (Cons a xs)
  obtain fname content where a: "a = (fname, content)" by (cases a)
  show ?case unfolding a using Cons
    by (simp split: prod.split sum.split bool.split)
qed

lemma get_dirs_skip:
  assumes "subdirectory fs dir = Some (xs @ ys)" and "\<not> endsWith name (js ''.md'')"
  shows "get_dirs cache (with_entry dir xs (name, text) ys fs) dirs ident
           = get_dirs cache fs dirs ident"
proof (induction dirs arbitrary: cache)
  case Nil
  show ?case by simp
next
  case (Cons a dirs)
  show ?case
  proof (cases "a = dir")
    case True
    with assms Cons show ?thesis
      by (simp add: with_entry_def get_files_skip split: prod.split sum.split option.split)
  next
    case False
    with Cons show ?thesis
      by (simp add: with_entry_def split: prod.split sum.split option.split)
  qed
qed

lemma index_dirs_skip:
  assumes "subdirectory fs dir = Some (xs @ ys)" and "\<not> endsWith name (js ''.md'')"
  shows "index_dirs cache (with_entry dir xs (name, text) ys fs) dirs entries
           = index_dirs cache fs dirs entries"
proof (induction dirs arbitrary: cache entries)
  case Nil
  show ?case by simp
next
  case (Cons a dirs)
  show ?case
  proof (cases "a = dir")
    case True
    with assms Cons show ?thesis
      by (simp add: with_entry_def index_files_skip split: prod.split sum.split option.split)
  next
    case False
    with Cons show ?thesis
      by (simp add: with_entry_def split: prod.split sum.split option.split)
  qed
qed

lemma list_dirs_skip:
  assumes "subdirectory fs dir = Some (xs @ ys)" and "\<not> endsWith name (js ''.md'')"
  shows "list_dirs P options cache (with_entry dir xs (name, text) ys fs) dirs results
         = list_dirs P options cache fs dirs results"
proof (induction dirs arbitrary: cache results)
  case Nil
  show ?case by simp
next
  case (Cons a dirs)
  show ?case
  proof (cases "a = dir")
    case True
    with assms Cons show ?thesis
      by (simp add: with_entry_def list_files_skip split: prod.split sum.split option.split)
  next
    case False
    with Cons show ?thesis
      by (simp add: with_entry_def split: prod.split sum.split option.split)
  qed
qed

lemma list_decisions_skip:
  assumes "subdirectory fs dir = Some (xs @ ys)" and "\<not> endsWith name (js ''.md'')"
  shows "list_decisions P cache (with_entry dir xs (name, text) ys fs) options
           = list_decisions P cache fs options"
  by (simp add: list_decisions_def list_dirs_skip[OF assms])

lemma rebuildIndex_skip:
  assumes "subdirectory fs dir = Some (xs @ ys)" and "\<not> endsWith name (js ''.md'')"
  shows "fst (rebuildIndex P now cache (with_entry dir xs (name, text) ys fs))
           = fst (rebuildIndex P now cache fs)"
    and "index_json (fst (snd (rebuildIndex P now cache (with_entry dir xs (name, text) ys fs))))
           = index_json (fst (snd (rebuildIndex P now cache fs)))"
    and "snd (snd (rebuildIndex P now cache (with_entry dir xs (name, text) ys fs)))
           = snd (snd (rebuildIndex P now cache fs))"
proof -
  have i: "index_json (with_entry dir xs (name, text) ys fs) = index_json fs"
    by (simp add: with_entry_def)
  show "fst (rebuildIndex P now cache (with_entry dir xs (name, text) ys fs))
           = fst (rebuildIndex P now cache fs)"
    by (simp add: rebuildIndex_def index_dirs_skip[OF assms] Let_def split: prod.split sum.split)
  show "index_json (fst (snd (rebuildIndex P now cache (with_entry dir xs (name, text) ys fs))))
           = index_json (fst (snd (rebuildIndex P now cache fs)))"
    using i
    by (simp add: rebuildIndex_def index_dirs_skip[OF assms] Let_def split: prod.split sum.split)
  show "snd (snd (rebuildIndex P now cache (with_entry dir xs (name, text) ys fs)))
           = snd (snd (rebuildIndex P now cache fs))"
    by (simp add: rebuildIndex_def index_dirs_skip[OF assms] Let_def split: prod.split sum.split)
qed

text \<open>
  C9. An entry of a status directory whose name does not end in \<^verbatim>\<open>.md\<close> changes nothing,
  whatever its text and wherever it stands in the directory: \<^verbatim>\<open>get\<close>, \<^verbatim>\<open>list\<close>,
  \<^verbatim>\<open>queryByFilePath\<close> and \<^verbatim>\<open>rebuildIndex\<close> give what they give without it, results,
  failures, the index written and the state of the front-matter library alike.
\<close>

theorem other_files_ignored:
  assumes "subdirectory fs dir = Some (before @ after)" and "\<not> endsWith name (js ''.md'')"
  shows "get cache (with_entry dir before (name, text) after fs) ident = get cache fs ident \<and>
         list_decisions P cache (with_entry dir before (name, text) after fs) options
           = list_decisions P cache fs options \<and>
         queryByFilePath P root cache (with_entry dir before (name, text) after fs) filePath
           = queryByFilePath P root cache fs filePath \<and>
         fst (rebuildIndex P now cache (with_entry dir before (name, text) after fs))
           = fst (rebuildIndex P now cache fs) \<and>
         index_json (fst (snd (rebuildIndex P now cache
                                 (with_entry dir before (name, text) after fs))))
           = index_json (fst (snd (rebuildIndex P now cache fs))) \<and>
         snd (snd (rebuildIndex P now cache (with_entry dir before (name, text) after fs)))
           = snd (snd (rebuildIndex P now cache fs))"
proof -
  have g: "get cache (with_entry dir before (name, text) after fs) ident = get cache fs ident"
    by (simp add: get_def get_dirs_skip[OF assms])
  have l: "list_decisions P cache (with_entry dir before (name, text) after fs) opts
           = list_decisions P cache fs opts" for opts
    by (rule list_decisions_skip[OF assms])
  have q: "queryByFilePath P root cache (with_entry dir before (name, text) after fs) filePath
           = queryByFilePath P root cache fs filePath"
    by (simp add: queryByFilePath_def l)
  from g l q rebuildIndex_skip[OF assms, of P now cache "text"] show ?thesis by simp
qed

lemma get_files_append:
  "get_files cache (xs @ ys) ident =
     (case get_files cache xs ident of
        (Inl e, cache) \<Rightarrow> (Inl e, cache)
      | (Inr (Some d), cache) \<Rightarrow> (Inr (Some d), cache)
      | (Inr None, cache) \<Rightarrow> get_files cache ys ident)"
proof (induction xs arbitrary: cache)
  case Nil
  show ?case by simp
next
  case (Cons a xs)
  obtain fname content where a: "a = (fname, content)" by (cases a)
  show ?case unfolding a
    by (simp add: Cons.IH split: prod.split sum.split parsed.split option.split)
qed

lemma get_dirs_scan:
  "get_dirs cache fs dirs ident = get_files cache (concat (map (dir_files fs) dirs)) ident"
proof (induction dirs arbitrary: cache)
  case Nil
  show ?case by simp
next
  case (Cons a dirs)
  show ?case
    by (simp add: Cons.IH dir_files_def get_files_append
        split: prod.split sum.split option.split)
qed

lemma get_scan: "get cache fs ident = get_files cache (scan_order fs) ident"
  by (simp add: get_def get_dirs_scan STATUS_DIRS_def scan_order_def)

lemma readable_dir_append:
  "readable_dir cache (xs @ ys) = (readable_dir cache xs \<and> readable_dir cache ys)"
  by (simp add: readable_dir_def)

lemma decisions_with_id_append:
  "decisions_with_id (xs @ ys) ident = decisions_with_id xs ident @ decisions_with_id ys ident"
  by (induction xs) (auto split: option.splits)

lemma get_files_readable:
  "readable_dir cache xs \<Longrightarrow>
   get_files cache xs ident
     = (Inr (case decisions_with_id xs ident of [] \<Rightarrow> None | d # ds \<Rightarrow> Some d), cache)"
proof (induction xs)
  case Nil
  show ?case by simp
next
  case (Cons a xs)
  obtain fname content where a: "a = (fname, content)" by (cases a)
  from Cons.prems have rest: "readable_dir cache xs" by (simp add: readable_dir_def)
  note IH = Cons.IH[OF rest]
  show ?case
  proof (cases "endsWith fname (js ''.md'')")
    case False
    with IH show ?thesis unfolding a by simp
  next
    case True
    with Cons.prems have "parses cache content" by (simp add: readable_dir_def a)
    then obtain p where p: "parseDecision cache content = (Inr p, cache)"
        "case p of Full d \<Rightarrow> decision_in content = Some d
         | Fieldless c q \<Rightarrow> decision_in content = None"
      using parse_readable by blast
    show ?thesis
    proof (cases p)
      case (Full d)
      with p True IH show ?thesis unfolding a by simp
    next
      case (Fieldless c q)
      with p True IH show ?thesis unfolding a by simp
    qed
  qed
qed

text \<open>
  C10. \<^verbatim>\<open>get\<close> is the scan of the entries of \<^verbatim>\<open>active\<close>, then \<^verbatim>\<open>superseded\<close>, then
  \<^verbatim>\<open>archived\<close>, up to the first decision with the id. Where every file parses, it returns
  the first of the decisions with that id in this order: one in an earlier directory wins
  over one in a later directory.
\<close>

theorem get_first_in_scan_order:
  "get cache fs ident = get_files cache (scan_order fs) ident \<and>
   (readable cache fs \<longrightarrow>
      get cache fs ident =
        (Inr (case decisions_with_id (dir_files fs active) ident
                   @ decisions_with_id (dir_files fs superseded) ident
                   @ decisions_with_id (dir_files fs archived) ident of
                [] \<Rightarrow> None
              | d # ds \<Rightarrow> Some d),
         cache))"
proof -
  have "readable_dir cache (scan_order fs)" if "readable cache fs"
    using that by (simp add: readable_def STATUS_DIRS_def scan_order_def readable_dir_append)
  then show ?thesis
    using get_files_readable[of cache "scan_order fs" ident]
    by (auto simp: get_scan scan_order_def decisions_with_id_append)
qed

lemmas tree_defs = empty_tree_def tree_of_def example_file_def stored_tree_def
  two_status_tree_def notes_tree_def broken_tree_def broken_text_def inherited_tree_def
  unscoped_tree_def
  dir_files_def scan_order_def with_entry_def

lemmas store_defs = Object_prototype_keys_def get_def list_decisions_def queryByFilePath_def rebuildIndex_def create_def
  STATUS_DIRS_def mkdir_def writeFile_def write_entry_def tags_filter_def scope_filter_def
  Array_sort_def newest_first_def created_time_def example_platform_def slugify_def
  example_toLowerCase_def example_lower_unit_def

theorem other_files_ignored_witness:
  "get {} (with_entry active [] (js ''index.json.bak'', BadFrontMatter broken_text)
             [example_file] stored_tree)
       (js ''dec_20260212_test01'') = (Inr (Some example_decision), {})"
proof -
  have here: "subdirectory stored_tree active = Some ([] @ [example_file])"
    by (simp add: stored_tree_def tree_of_def)
  have other: "\<not> endsWith (js ''index.json.bak'') (js ''.md'')" by (simp add: text_defs)
  have "get {} stored_tree (js ''dec_20260212_test01'') = (Inr (Some example_decision), {})"
    by (simp add: store_defs tree_defs example_defs text_defs parser_defs)
  with other_files_ignored[OF here other, of "{}" "BadFrontMatter broken_text"
      "js ''dec_20260212_test01''"]
  show ?thesis by simp
qed

theorem get_first_in_scan_order_witness:
  "get {} two_status_tree (js ''dec_20260212_test01'') = (Inr (Some example_decision), {})"
proof -
  have r: "readable {} two_status_tree"
    by (simp add: readable_def readable_dir_def parses_def store_defs tree_defs example_defs
        text_defs parser_defs)
  have a: "decisions_with_id (dir_files two_status_tree active) (js ''dec_20260212_test01'')
             = [example_decision]"
    by (simp add: tree_defs example_defs text_defs parser_defs)
  have s: "decisions_with_id (dir_files two_status_tree superseded) (js ''dec_20260212_test01'')
             = [old_decision]"
    by (simp add: tree_defs example_defs text_defs parser_defs)
  have "get {} two_status_tree (js ''dec_20260212_test01'') =
        (Inr (case decisions_with_id (dir_files two_status_tree active) (js ''dec_20260212_test01'')
                  @ decisions_with_id (dir_files two_status_tree superseded) (js ''dec_20260212_test01'')
                  @ decisions_with_id (dir_files two_status_tree archived) (js ''dec_20260212_test01'') of
               [] \<Rightarrow> None
             | d # ds \<Rightarrow> Some d), {})"
    using get_first_in_scan_order[of "{}" two_status_tree "js ''dec_20260212_test01''"] r by blast
  then show ?thesis by (simp add: a s)
qed

section \<open>A file that does not parse\<close>














section \<open>Creating and retrieving\<close>












lemma index_json_written:
  "index_json (writeFile P dir name text (mkdir dir fs)) = index_json fs"
  by (auto simp: writeFile_def mkdir_def split: option.splits)










section \<open>Decisions for a path\<close>

lemma parse_decision_in:
  "decision_in content = Some d \<Longrightarrow> parseDecision cache content = (Inr (Full d), cache)"
  by (cases content) (auto simp: parseDecision_def decision_object_Some)

lemma list_files_scoped:
  assumes "tags_option options = None" and "scope_option options = Some rel" and "rel \<noteq> []"
  shows "all_decisions files \<Longrightarrow>
         list_files P options cache files results =
           (Inr (results @ map Full (filter (\<lambda>d. list_ex (minimatch P rel) (scope d))
                                       (stored_decisions files))), cache)"
proof (induction files arbitrary: results)
  case Nil
  show ?case by simp
next
  case (Cons a files)
  obtain fname content where a: "a = (fname, content)" by (cases a)
  from Cons.prems have rest: "all_decisions files" by (simp add: all_decisions_def)
  show ?case
  proof (cases "endsWith fname (js ''.md'')")
    case False
    with Cons.IH[OF rest] a show ?thesis by simp
  next
    case True
    with Cons.prems a obtain d where h: "decision_in content = Some d"
      by (auto simp: all_decisions_def)
    then have d: "parseDecision cache content = (Inr (Full d), cache)"
      by (rule parse_decision_in)
    have t: "tags_filter options (Full d) = Inr True"
      using assms(1) by (simp add: tags_filter_def)
    have s: "scope_filter P options (Full d) = Inr (list_ex (minimatch P rel) (scope d))"
      using assms(2,3) by (simp add: scope_filter_def)
    show ?thesis
      unfolding a using True d h t s Cons.IH[OF rest] by simp
  qed
qed

lemma set_insert_sorted: "set (insert_sorted cmp x ys) = insert x (set ys)"
  by (induction ys) auto

lemma set_Array_sort: "set (Array_sort cmp xs) = set xs"
  unfolding Array_sort_def by (induction xs) (simp_all add: set_insert_sorted)

text \<open>
  Where every \<^verbatim>\<open>.md\<close> file of \<^verbatim>\<open>active\<close> holds a decision and the normalized path is not
  empty, the query returns the decisions of \<^verbatim>\<open>active\<close> with a pattern in their scope that
  matches the path, and no others.
\<close>

lemma query_nonempty_path:
  assumes "all_decisions (dir_files fs active)" and "normalized_path P root filePath \<noteq> []"
  shows "\<exists>results. queryByFilePath P root cache fs filePath = (Inr results, cache) \<and>
           set results =
             Full ` {d \<in> set (stored_decisions (dir_files fs active)).
                       \<exists>pattern\<in>set (scope d). minimatch P (normalized_path P root filePath) pattern}"
proof -
  let ?rel = "normalized_path P root filePath"
  let ?options = "\<lparr>status_option = Some active, tags_option = None, scope_option = Some ?rel\<rparr>"
  have "list_files P ?options cache (dir_files fs active) [] =
          (Inr ([] @ map Full (filter (\<lambda>d. list_ex (minimatch P ?rel) (scope d))
                                      (stored_decisions (dir_files fs active)))), cache)"
    by (rule list_files_scoped) (simp_all add: assms)
  then have "list_dirs P ?options cache fs [active] [] =
          (Inr (map Full (filter (\<lambda>d. list_ex (minimatch P ?rel) (scope d))
                                      (stored_decisions (dir_files fs active)))), cache)"
    by (simp add: dir_files_def split: option.splits)
  then show ?thesis
    by (auto simp: queryByFilePath_def normalized_path_def list_decisions_def Let_def
          set_Array_sort list_ex_iff)
qed

text \<open>
  C2. \<^verbatim>\<open>list\<close> tests its scope option for truth, and the empty string is false. A query for
  the project root by its absolute path, or for the empty path, hands \<^verbatim>\<open>list\<close> the empty
  string: the scope filter is skipped, and the active decision whose scope is empty is
  returned.
\<close>

theorem query_for_root_returns_unscoped:
  "scope unscoped_decision = [] \<and>
   queryByFilePath example_platform (js ''/project'') {} unscoped_tree (js ''/project'')
     = (Inr [Full unscoped_decision], {}) \<and>
   queryByFilePath example_platform (js ''/project'') {} unscoped_tree []
     = (Inr [Full unscoped_decision], {})"
proof -
  have 1: "scope unscoped_decision = []" by (simp add: example_defs)
  have 2: "queryByFilePath example_platform (js ''/project'') {} unscoped_tree (js ''/project'')
     = (Inr [Full unscoped_decision], {})"
    by (simp add: store_defs tree_defs example_defs text_defs parser_defs)
  have 3: "queryByFilePath example_platform (js ''/project'') {} unscoped_tree []
     = (Inr [Full unscoped_decision], {})"
    by (simp add: store_defs tree_defs example_defs text_defs parser_defs)
  from 1 2 3 show ?thesis by simp
qed

section \<open>Initialising the store\<close>

text \<open>
  C8. \<^verbatim>\<open>init\<close> run again changes nothing. After it the three status directories exist; an
  index file that was there keeps its text, and where there was none the empty index of
  version 1 is written; a status directory that was there keeps its entries.
\<close>

theorem init_idempotent:
  "init now' (init now fs) = init now fs \<and>
   (\<forall>dir. subdirectory (init now fs) dir \<noteq> None) \<and>
   (\<forall>text. index_json fs = Some text \<longrightarrow> index_json (init now fs) = Some text) \<and>
   (index_json fs = None \<longrightarrow>
      index_json (init now fs) = Some (Stringified \<lparr>version = 1, index_updated = now, decisions = []\<rparr>)) \<and>
   (\<forall>dir files. subdirectory fs dir = Some files \<longrightarrow> subdirectory (init now fs) dir = Some files)"
proof -
  define g where "g = foldl (\<lambda>fs dir. mkdir dir fs) fs STATUS_DIRS"
  have sub: "subdirectory g dir = (case subdirectory fs dir of None \<Rightarrow> Some [] | Some files \<Rightarrow> Some files)" for dir
    unfolding g_def STATUS_DIRS_def mkdir_def
    by (cases dir) (auto split: option.splits)
  have idx: "index_json g = index_json fs"
    unfolding g_def STATUS_DIRS_def mkdir_def by (auto split: option.splits)
  have stays: "foldl (\<lambda>fs dir. mkdir dir fs) h STATUS_DIRS = h" if "\<forall>dir. subdirectory h dir \<noteq> None" for h
  proof -
    from that obtain a b c where "subdirectory h active = Some a"
      "subdirectory h superseded = Some b" "subdirectory h archived = Some c"
      by (meson option.exhaust)
    then show ?thesis by (simp add: STATUS_DIRS_def mkdir_def)
  qed
  have init_eq: "init now fs = (case index_json g of Some text \<Rightarrow> g
        | None \<Rightarrow> g\<lparr>index_json := Some (Stringified \<lparr>version = 1, index_updated = now, decisions = []\<rparr>)\<rparr>)"
    unfolding init_def g_def Let_def ..
  have all: "\<forall>dir. subdirectory (init now fs) dir \<noteq> None"
    unfolding init_eq by (auto simp: sub split: option.splits)
  have some: "index_json (init now fs) \<noteq> None"
    unfolding init_eq by (auto split: option.splits)
  have 1: "init now' (init now fs) = init now fs"
    using some unfolding init_def[of now' "init now fs"] Let_def stays[OF all]
    by (auto split: option.splits)
  show ?thesis
    using 1 all unfolding init_eq by (auto simp: sub idx split: option.splits)
qed

theorem init_idempotent_witness:
  "init (js ''2026-02-12T10:00:00Z'') (init (js ''2026-02-12T09:30:00Z'') empty_tree)
     = init (js ''2026-02-12T09:30:00Z'') empty_tree \<and>
   index_json (init (js ''2026-02-12T10:00:00Z'') stored_tree)
     = Some (OtherText (js ''corrupted!'')) \<and>
   subdirectory (init (js ''2026-02-12T10:00:00Z'') stored_tree) active = Some [example_file]"
proof -
  have i: "index_json stored_tree = Some (OtherText (js ''corrupted!''))"
    by (simp add: stored_tree_def tree_of_def)
  have a: "subdirectory stored_tree active = Some [example_file]"
    by (simp add: stored_tree_def tree_of_def)
  from init_idempotent[of "js ''2026-02-12T10:00:00Z''" "js ''2026-02-12T09:30:00Z''" empty_tree]
    init_idempotent[of _ "js ''2026-02-12T10:00:00Z''" stored_tree] i a
  show ?thesis by blast
qed

end
